theory Spec2Isabelle
  imports Complex_Main "HOL-Library.Signed_Division" "HOL-Library.AList" "HOL-Library.Multiset"
begin

section \<open>Numbers\<close>

text \<open>
  The program computes with JavaScript numbers.  Finite numbers are modelled as reals; the
  three non-finite values are kept, because the program tests for them
  (\<^verbatim>\<open>isNaN\<close>, \<^verbatim>\<open>isFinite\<close>) and because comparisons with \<^verbatim>\<open>NaN\<close> are false.
  Arithmetic is exact, except where the outcome of the program turns on the rounding of a
  double: in the intercept computed by \<^verbatim>\<open>isPointInPolygon\<close> and in the steering of
  \<^verbatim>\<open>updatePlayerMovement\<close> (the angle difference, the two loops that normalise it and the
  turn added to the heading) every operation is rounded to the nearest double (\<open>rnd\<close>,
  below).  The sign of zero is not modelled.
\<close>

datatype jsnum = Fin real | PInf | NInf | NaN

fun jsign :: "jsnum \<Rightarrow> real option" where
  "jsign (Fin a) = Some (sgn a)"
| "jsign PInf = Some 1"
| "jsign NInf = Some (- 1)"
| "jsign NaN = None"

definition inf_of_sign :: "real \<Rightarrow> jsnum" where
  "inf_of_sign s = (if 0 < s then PInf else if s < 0 then NInf else NaN)"

instantiation jsnum :: "{plus, minus, uminus, times, inverse, abs, ord}"
begin

fun plus_jsnum :: "jsnum \<Rightarrow> jsnum \<Rightarrow> jsnum" where
  "plus_jsnum (Fin a) (Fin b) = Fin (a + b)"
| "plus_jsnum NaN v = NaN"
| "plus_jsnum u NaN = NaN"
| "plus_jsnum PInf NInf = NaN"
| "plus_jsnum NInf PInf = NaN"
| "plus_jsnum PInf v = PInf"
| "plus_jsnum u PInf = PInf"
| "plus_jsnum NInf v = NInf"
| "plus_jsnum u NInf = NInf"

fun uminus_jsnum :: "jsnum \<Rightarrow> jsnum" where
  "uminus_jsnum (Fin a) = Fin (- a)"
| "uminus_jsnum PInf = NInf"
| "uminus_jsnum NInf = PInf"
| "uminus_jsnum NaN = NaN"

definition minus_jsnum :: "jsnum \<Rightarrow> jsnum \<Rightarrow> jsnum" where
  "minus_jsnum u v = u + (- v)"

fun times_jsnum :: "jsnum \<Rightarrow> jsnum \<Rightarrow> jsnum" where
  "times_jsnum (Fin a) (Fin b) = Fin (a * b)"
| "times_jsnum u v =
     (case (jsign u, jsign v) of
        (Some s, Some t) \<Rightarrow> inf_of_sign (s * t)
      | _ \<Rightarrow> NaN)"

fun divide_jsnum :: "jsnum \<Rightarrow> jsnum \<Rightarrow> jsnum" where
  "divide_jsnum (Fin a) (Fin b) = (if b = 0 then inf_of_sign (sgn a) else Fin (a / b))"
| "divide_jsnum (Fin a) PInf = Fin 0"
| "divide_jsnum (Fin a) NInf = Fin 0"
| "divide_jsnum PInf (Fin b) = (if b < 0 then NInf else PInf)"
| "divide_jsnum NInf (Fin b) = (if b < 0 then PInf else NInf)"
| "divide_jsnum u v = NaN"

fun inverse_jsnum :: "jsnum \<Rightarrow> jsnum" where
  "inverse_jsnum (Fin a) = (if a = 0 then PInf else Fin (1 / a))"
| "inverse_jsnum PInf = Fin 0"
| "inverse_jsnum NInf = Fin 0"
| "inverse_jsnum NaN = NaN"

fun abs_jsnum :: "jsnum \<Rightarrow> jsnum" where
  "abs_jsnum (Fin a) = Fin \<bar>a\<bar>"
| "abs_jsnum PInf = PInf"
| "abs_jsnum NInf = PInf"
| "abs_jsnum NaN = NaN"

fun less_jsnum :: "jsnum \<Rightarrow> jsnum \<Rightarrow> bool" where
  "less_jsnum (Fin a) (Fin b) = (a < b)"
| "less_jsnum NaN v = False"
| "less_jsnum u NaN = False"
| "less_jsnum u NInf = False"
| "less_jsnum PInf v = False"
| "less_jsnum NInf v = True"
| "less_jsnum u PInf = True"

fun less_eq_jsnum :: "jsnum \<Rightarrow> jsnum \<Rightarrow> bool" where
  "less_eq_jsnum (Fin a) (Fin b) = (a \<le> b)"
| "less_eq_jsnum NaN v = False"
| "less_eq_jsnum u NaN = False"
| "less_eq_jsnum NInf v = True"
| "less_eq_jsnum u PInf = True"
| "less_eq_jsnum u NInf = False"
| "less_eq_jsnum PInf v = False"

instance ..

end

text \<open>
  Rounding to the nearest double, ties to even (IEEE 754 binary64): \<open>quantum x\<close> is the
  distance between the doubles around \<open>x\<close> (53 significant bits, least exponent -1022, so that
  the subnormal numbers are multiples of 2 to the power -1074), and a result of magnitude 2 to
  the power 1024 or more is an infinity.
\<close>

definition round_even :: "real \<Rightarrow> int" where
  "round_even x =
     (let n = \<lfloor>x\<rfloor>; r = x - of_int n
      in if r < 1 / 2 then n else if 1 / 2 < r then n + 1 else if even n then n else n + 1)"

definition quantum :: "real \<Rightarrow> real" where
  "quantum x = 2 powr (of_int (max \<lfloor>log 2 \<bar>x\<bar>\<rfloor> (- 1022)) - 52)"

definition to_double :: "real \<Rightarrow> jsnum" where
  "to_double x =
     (if x = 0 then Fin 0
      else let r = of_int (round_even (x / quantum x)) * quantum x
           in if 2 ^ 1024 \<le> \<bar>r\<bar> then inf_of_sign x else Fin r)"

text \<open>The result of an operation, as the machine stores it.\<close>

definition rnd :: "jsnum \<Rightarrow> jsnum" where
  "rnd u = (case u of Fin a \<Rightarrow> to_double a | _ \<Rightarrow> u)"

text \<open>Strict equality \<^verbatim>\<open>===\<close> on numbers: \<^verbatim>\<open>NaN\<close> is not equal to itself.\<close>

definition js_eq :: "jsnum \<Rightarrow> jsnum \<Rightarrow> bool" where
  "js_eq u v = (u \<noteq> NaN \<and> u = v)"

definition isNaN :: "jsnum \<Rightarrow> bool" where
  "isNaN u = (u = NaN)"

fun isFinite :: "jsnum \<Rightarrow> bool" where
  "isFinite (Fin a) = True"
| "isFinite u = False"

fun Math_floor :: "jsnum \<Rightarrow> jsnum" where
  "Math_floor (Fin a) = Fin (of_int \<lfloor>a\<rfloor>)"
| "Math_floor u = u"

fun Math_sqrt :: "jsnum \<Rightarrow> jsnum" where
  "Math_sqrt (Fin a) = (if a < 0 then NaN else Fin (sqrt a))"
| "Math_sqrt PInf = PInf"
| "Math_sqrt u = NaN"

text \<open>\<^verbatim>\<open>Math.pow(u, 2)\<close>.\<close>

definition Math_pow2 :: "jsnum \<Rightarrow> jsnum" where
  "Math_pow2 u = u * u"

text \<open>\<^verbatim>\<open>Math.hypot\<close>: an infinite argument wins over \<^verbatim>\<open>NaN\<close>.\<close>

definition Math_hypot :: "jsnum \<Rightarrow> jsnum \<Rightarrow> jsnum" where
  "Math_hypot u v =
     (if u = PInf \<or> u = NInf \<or> v = PInf \<or> v = NInf then PInf
      else Math_sqrt (u * u + v * v))"

fun Math_cos :: "jsnum \<Rightarrow> jsnum" where
  "Math_cos (Fin a) = Fin (cos a)"
| "Math_cos u = NaN"

fun Math_sin :: "jsnum \<Rightarrow> jsnum" where
  "Math_sin (Fin a) = Fin (sin a)"
| "Math_sin u = NaN"

definition Math_PI :: jsnum where
  "Math_PI = Fin pi"

text \<open>The angle of the vector \<open>(c, s)\<close> in \<open>(-\<pi>, \<pi>]\<close>, the origin mapped to \<open>0\<close>.\<close>

definition atan2 :: "real \<Rightarrow> real \<Rightarrow> real" where
  "atan2 s c =
     (if 0 < c then arctan (s / c)
      else if c < 0 then (if 0 \<le> s then arctan (s / c) + pi else arctan (s / c) - pi)
      else if 0 < s then pi / 2
      else if s < 0 then - (pi / 2)
      else 0)"

fun Math_atan2 :: "jsnum \<Rightarrow> jsnum \<Rightarrow> jsnum" where
  "Math_atan2 (Fin s) (Fin c) = Fin (atan2 s c)"
| "Math_atan2 NaN v = NaN"
| "Math_atan2 u NaN = NaN"
| "Math_atan2 (Fin s) PInf = Fin 0"
| "Math_atan2 (Fin s) NInf = (if s < 0 then Fin (- pi) else Fin pi)"
| "Math_atan2 PInf (Fin c) = Fin (pi / 2)"
| "Math_atan2 NInf (Fin c) = Fin (- (pi / 2))"
| "Math_atan2 PInf PInf = Fin (pi / 4)"
| "Math_atan2 PInf NInf = Fin (3 * pi / 4)"
| "Math_atan2 NInf PInf = Fin (- (pi / 4))"
| "Math_atan2 NInf NInf = Fin (- (3 * pi / 4))"

text \<open>
  The operator \<^verbatim>\<open>a || b\<close> on a number that may be \<^verbatim>\<open>undefined\<close>: \<^verbatim>\<open>undefined\<close>, \<open>0\<close> and
  \<^verbatim>\<open>NaN\<close> are falsy.
\<close>

fun js_or :: "jsnum option \<Rightarrow> jsnum \<Rightarrow> jsnum" where
  "js_or None v = v"
| "js_or (Some u) v = (if u = Fin 0 \<or> u = NaN then v else u)"

text \<open>
  Reading an array at an integer index: outside the array the result is \<^verbatim>\<open>undefined\<close>
  (here \<open>None\<close>).
\<close>

definition js_nth :: "'a list \<Rightarrow> int \<Rightarrow> 'a option" where
  "js_nth xs i = (if 0 \<le> i \<and> i < int (length xs) then Some (xs ! nat i) else None)"

section \<open>Geometry (\<^verbatim>\<open>math/geometry.ts\<close>)\<close>

record point =
  px :: jsnum
  py :: jsnum

record BoundaryIntersection =
  point :: point
  edgeIndex :: nat

datatype error = TypeError | InvalidTerritory

text \<open>\<^verbatim>\<open>isPointInPolygon\<close>: the loop \<^verbatim>\<open>for (i = 0, j = n - 1; i < n; j = i++)\<close>.\<close>

definition edge_intersect :: "point \<Rightarrow> point \<Rightarrow> point \<Rightarrow> bool" where
  "edge_intersect pt vi vj =
     (let xi = px vi; yi = py vi; xj = px vj; yj = py vj in
      ((yi > py pt) \<noteq> (yj > py pt)) \<and>
      px pt < rnd (rnd (rnd (rnd (xj - xi) * rnd (py pt - yi)) / rnd (yj - yi)) + xi))"

function isPointInPolygon_loop :: "point \<Rightarrow> point list \<Rightarrow> nat \<Rightarrow> nat \<Rightarrow> bool \<Rightarrow> bool" where
  "isPointInPolygon_loop pt polygon i j inside =
     (if i < length polygon
      then isPointInPolygon_loop pt polygon (i + 1) i
             (if edge_intersect pt (polygon ! i) (polygon ! j) then \<not> inside else inside)
      else inside)"
  by pat_completeness auto
termination
  by (relation "measure (\<lambda>(pt, polygon, i, j, inside). length polygon - i)") auto

definition isPointInPolygon :: "point \<Rightarrow> point list \<Rightarrow> bool" where
  "isPointInPolygon pt polygon = isPointInPolygon_loop pt polygon 0 (length polygon - 1) False"

definition getSegmentIntersection :: "point \<Rightarrow> point \<Rightarrow> point \<Rightarrow> point \<Rightarrow> point option" where
  "getSegmentIntersection A B C D =
     (let denom = (py D - py C) * (px B - px A) - (px D - px C) * (py B - py A) in
      if js_eq denom (Fin 0) then None
      else
        let ua = ((px D - px C) * (py A - py C) - (py D - py C) * (px A - px C)) / denom;
            ub = ((px B - px A) * (py A - py C) - (py B - py A) * (px A - px C)) / denom
        in if ua \<ge> Fin 0 \<and> ua \<le> Fin 1 \<and> ub \<ge> Fin 0 \<and> ub \<le> Fin 1
           then Some \<lparr>px = px A + ua * (px B - px A), py = py A + ua * (py B - py A)\<rparr>
           else None)"

function findBoundaryIntersection_loop ::
  "point \<Rightarrow> point \<Rightarrow> point list \<Rightarrow> nat \<Rightarrow> BoundaryIntersection option" where
  "findBoundaryIntersection_loop p1 p2 polygon i =
     (if i < length polygon
      then (case getSegmentIntersection p1 p2 (polygon ! i) (polygon ! ((i + 1) mod length polygon)) of
              Some intersection \<Rightarrow> Some \<lparr>point = intersection, edgeIndex = i\<rparr>
            | None \<Rightarrow> findBoundaryIntersection_loop p1 p2 polygon (i + 1))
      else None)"
  by pat_completeness auto
termination
  by (relation "measure (\<lambda>(p1, p2, polygon, i). length polygon - i)") auto

definition findBoundaryIntersection ::
  "point \<Rightarrow> point \<Rightarrow> point list \<Rightarrow> BoundaryIntersection option" where
  "findBoundaryIntersection p1 p2 polygon = findBoundaryIntersection_loop p1 p2 polygon 0"

text \<open>
  \<^verbatim>\<open>extractBoundaryArc\<close>: the \<^verbatim>\<open>while\<close> loop runs until the index meets the stop index.  The
  integer remainder \<^verbatim>\<open>%\<close> keeps the sign of the dividend (\<open>smod\<close>), so a start below \<open>-1\<close>
  reads outside the array and pushes \<^verbatim>\<open>undefined\<close>, and a stop index that is negative is never
  met: the loop does not end (\<open>None\<close>).  On an empty polygon the index is \<^verbatim>\<open>NaN\<close>, which
  differs from itself, and the loop does not end either.
\<close>

partial_function (option) extractBoundaryArc_loop ::
  "point list \<Rightarrow> int \<Rightarrow> int \<Rightarrow> point option list \<Rightarrow> point option list option" where
  "extractBoundaryArc_loop polygon i stop arc =
     (if i \<noteq> stop
      then extractBoundaryArc_loop polygon ((i + 1) smod int (length polygon)) stop
             (arc @ [js_nth polygon i])
      else Some arc)"

definition extractBoundaryArc :: "point list \<Rightarrow> int \<Rightarrow> int \<Rightarrow> point option list option" where
  "extractBoundaryArc polygon startEdgeIndex endEdgeIndex =
     (if polygon = [] then None
      else extractBoundaryArc_loop polygon
             ((startEdgeIndex + 1) smod int (length polygon))
             ((endEdgeIndex + 1) smod int (length polygon)) [])"

definition getSignedPolygonArea :: "point list \<Rightarrow> jsnum" where
  "getSignedPolygonArea polygon =
     fold (\<lambda>i area.
             let j = (i + 1) mod length polygon;
                 area1 = area + px (polygon ! i) * py (polygon ! j)
             in area1 - px (polygon ! j) * py (polygon ! i))
          [0..<length polygon] (Fin 0) / Fin 2"

definition getPolygonArea :: "point list \<Rightarrow> jsnum" where
  "getPolygonArea polygon = \<bar>getSignedPolygonArea polygon\<bar>"

definition ensureClockwise :: "point list \<Rightarrow> point list" where
  "ensureClockwise polygon =
     (if getSignedPolygonArea polygon < Fin 0 then rev polygon else polygon)"

text \<open>
  The area of an array that may hold \<^verbatim>\<open>undefined\<close>: reading a coordinate of \<^verbatim>\<open>undefined\<close>
  throws a \<^verbatim>\<open>TypeError\<close>, and the area loop reads every element.
\<close>

definition getPolygonArea_holes :: "point option list \<Rightarrow> error + jsnum" where
  "getPolygonArea_holes polygon =
     (case those polygon of None \<Rightarrow> Inl TypeError | Some ps \<Rightarrow> Inr (getPolygonArea ps))"

text \<open>The counted loop of the same-edge case of \<^verbatim>\<open>computeCapture\<close>.\<close>

fun sameEdge_arcB :: "point list \<Rightarrow> int \<Rightarrow> nat \<Rightarrow> point option list" where
  "sameEdge_arcB terr i 0 = []"
| "sameEdge_arcB terr i (Suc remaining) =
     js_nth terr i # sameEdge_arcB terr ((i + 1) smod int (length terr)) remaining"

text \<open>
  \<^verbatim>\<open>computeCapture\<close>.  The result is \<open>None\<close> when a boundary walk does not end, \<open>Inl TypeError\<close>
  when a candidate holds \<^verbatim>\<open>undefined\<close> (both areas are computed before the function returns).
\<close>

definition choose_candidate ::
  "point option list \<Rightarrow> point option list \<Rightarrow> error + point list" where
  "choose_candidate candidateA candidateB =
     (case getPolygonArea_holes candidateA of
        Inl e \<Rightarrow> Inl e
      | Inr areaA \<Rightarrow>
          (case getPolygonArea_holes candidateB of
             Inl e \<Rightarrow> Inl e
           | Inr areaB \<Rightarrow>
               if \<bar>areaA\<bar> > \<bar>areaB\<bar> then Inr (map the candidateA) else Inr (map the candidateB)))"

definition computeCapture ::
  "point list \<Rightarrow> point list \<Rightarrow> point \<Rightarrow> int \<Rightarrow> point \<Rightarrow> int \<Rightarrow> (error + point list) option" where
  "computeCapture terr trl exitPt exitEdge entryPt entryEdge =
     (let loop = map Some ([exitPt] @ trl @ [entryPt]) in
      if exitEdge = entryEdge
      then Some (choose_candidate loop
                   (loop @ sameEdge_arcB terr ((exitEdge + 1) smod int (length terr)) (length terr)))
      else
        (case extractBoundaryArc terr exitEdge entryEdge of
           None \<Rightarrow> None
         | Some arcA \<Rightarrow>
             (case extractBoundaryArc terr entryEdge exitEdge of
                None \<Rightarrow> None
              | Some arcB \<Rightarrow> Some (choose_candidate (loop @ rev arcA) (loop @ arcB)))))"

definition simplifyPolygon :: "point list \<Rightarrow> jsnum \<Rightarrow> point list" where
  "simplifyPolygon polygon tolerance =
     (if length polygon < 3 then polygon
      else fold (\<lambda>curr simplified.
                   let lst = last simplified;
                       dx = px curr - px lst;
                       dy = py curr - py lst;
                       distSq = dx * dx + dy * dy
                   in if distSq > tolerance * tolerance then simplified @ [curr] else simplified)
                (tl polygon) [hd polygon])"

definition segmentsIntersect :: "point \<Rightarrow> point \<Rightarrow> point \<Rightarrow> point \<Rightarrow> bool" where
  "segmentsIntersect a1 a2 b1 b2 = (getSegmentIntersection a1 a2 b1 b2 \<noteq> None)"


definition finite_point :: "point \<Rightarrow> bool" where
  "finite_point p = (isFinite (px p) \<and> isFinite (py p))"

section \<open>Constants (\<^verbatim>\<open>constants.ts\<close>)\<close>

definition WORLD_WIDTH :: jsnum where "WORLD_WIDTH = Fin 5000"
definition WORLD_HEIGHT :: jsnum where "WORLD_HEIGHT = Fin 5000"
definition PLAYER_SPEED :: jsnum where "PLAYER_SPEED = Fin 500"
definition PLAYER_TURN_SPEED :: jsnum where "PLAYER_TURN_SPEED = Fin 12"
definition STARTING_TERRITORY_SIZE :: jsnum where "STARTING_TERRITORY_SIZE = Fin 300"
definition TRAIL_POINT_DISTANCE :: jsnum where "TRAIL_POINT_DISTANCE = Fin 10"

section \<open>Players and the game state (\<^verbatim>\<open>GameState.ts\<close>)\<close>

text \<open>
  The fields of \<^verbatim>\<open>Player\<close>, with the three fields the server attaches dynamically
  (\<^verbatim>\<open>prevX\<close>, \<^verbatim>\<open>prevY\<close>, \<^verbatim>\<open>territoryChanged\<close>; an absent \<^verbatim>\<open>prevX\<close> is \<open>None\<close>, an absent flag
  is \<open>False\<close>).  The coordinates \<^verbatim>\<open>x\<close>, \<^verbatim>\<open>y\<close> are \<open>posx\<close>, \<open>posy\<close>.  The field \<^verbatim>\<open>id\<close> is the key
  under which the player is stored: the map \<^verbatim>\<open>players\<close> is an association list in insertion
  order.
\<close>

record player =
  posx :: jsnum
  posy :: jsnum
  angle :: jsnum
  targetAngle :: jsnum
  speed :: jsnum
  color :: string
  territory :: "point list"
  trail :: "point list"
  isOutside :: bool
  exitPoint :: "point option"
  exitEdgeIndex :: int
  isDead :: bool
  deathTimer :: jsnum
  score :: jsnum
  invulnerableTimer :: jsnum
  hasWon :: bool
  prevX :: "jsnum option"
  prevY :: "jsnum option"
  territoryChanged :: bool

type_synonym game = "(string \<times> player) list"

definition getPlayer :: "game \<Rightarrow> string \<Rightarrow> player option" where
  "getPlayer g ident = map_of g ident"

definition seed_territory :: "jsnum \<Rightarrow> jsnum \<Rightarrow> point list" where
  "seed_territory cx cy =
     (let radius = (STARTING_TERRITORY_SIZE / Fin 2) + Fin 5;
          segments = Fin 32
      in map (\<lambda>i. let a = (Fin (real i) / segments) * Math_PI * Fin 2
                  in \<lparr>px = cx + Math_cos a * radius, py = cy + Math_sin a * radius\<rparr>)
             [0..<32])"

definition new_player :: "jsnum \<Rightarrow> jsnum \<Rightarrow> string \<Rightarrow> player" where
  "new_player cx cy col =
     (let terr = seed_territory cx cy;
          initialArea = Math_floor (getPolygonArea terr)
      in \<lparr>posx = cx, posy = cy, angle = Fin 0, targetAngle = Fin 0, speed = Fin 0,
          color = col, territory = terr, trail = [], isOutside = False, exitPoint = None,
          exitEdgeIndex = - 1, isDead = False, deathTimer = Fin 0, score = initialArea,
          invulnerableTimer = Fin 0, hasWon = False, prevX = None, prevY = None,
          territoryChanged = False\<rparr>)"

definition createPlayer :: "string \<Rightarrow> jsnum \<Rightarrow> jsnum \<Rightarrow> string \<Rightarrow> game \<Rightarrow> game" where
  "createPlayer ident cx cy col g = AList.update ident (new_player cx cy col) g"

definition removePlayer :: "string \<Rightarrow> game \<Rightarrow> game" where
  "removePlayer ident g = AList.delete ident g"

text \<open>
  The two \<^verbatim>\<open>while\<close> loops that bring the angle difference into \<open>(-\<pi>, \<pi>]\<close>.  Every addition
  is rounded.  The loops do not end on an infinite difference, nor on a finite difference so
  large that the rounding absorbs \<open>2\<pi>\<close>.
\<close>

partial_function (option) normalize_up :: "jsnum \<Rightarrow> jsnum option" where
  "normalize_up angleDiff =
     (if angleDiff \<le> - Math_PI then normalize_up (rnd (angleDiff + Math_PI * Fin 2))
      else Some angleDiff)"

partial_function (option) normalize_down :: "jsnum \<Rightarrow> jsnum option" where
  "normalize_down angleDiff =
     (if angleDiff > Math_PI then normalize_down (rnd (angleDiff - Math_PI * Fin 2))
      else Some angleDiff)"

definition normalize_diff :: "jsnum \<Rightarrow> jsnum option" where
  "normalize_diff angleDiff =
     (case normalize_up angleDiff of None \<Rightarrow> None | Some d \<Rightarrow> normalize_down d)"

definition updatePlayerMovement :: "player \<Rightarrow> jsnum \<Rightarrow> player option" where
  "updatePlayerMovement p dt =
     (let angle0 = Math_atan2 (Math_sin (angle p)) (Math_cos (angle p)) in
      case normalize_diff (rnd (targetAngle p - angle0)) of
        None \<Rightarrow> None
      | Some angleDiff \<Rightarrow>
          let angle1 = rnd (angle0 + rnd (rnd (angleDiff * PLAYER_TURN_SPEED) * dt));
              oldX = posx p;
              oldY = posy p;
              x1 = posx p + Math_cos angle1 * speed p * dt;
              y1 = posy p + Math_sin angle1 * speed p * dt;
              centerX = WORLD_WIDTH / Fin 2;
              centerY = WORLD_HEIGHT / Fin 2;
              maxRadius = (WORLD_WIDTH / Fin 2) - Fin 1;
              dx = x1 - centerX;
              dy = y1 - centerY;
              distFromCenter = Math_sqrt (dx * dx + dy * dy);
              clampAngle = Math_atan2 dy dx;
              x2 = (if distFromCenter > maxRadius then centerX + Math_cos clampAngle * maxRadius else x1);
              y2 = (if distFromCenter > maxRadius then centerY + Math_sin clampAngle * maxRadius else y1)
          in Some (p\<lparr>angle := angle1, posx := x2, posy := y2, prevX := Some oldX, prevY := Some oldY\<rparr>))"

definition updatePlayerTrail :: "player \<Rightarrow> player" where
  "updatePlayerTrail p =
     (if \<not> isOutside p then p
      else
        let currentPos = \<lparr>px = posx p, py = posy p\<rparr> in
        if length (trail p) > 0 \<and>
           (let lastPoint = last (trail p);
                dx = px currentPos - px lastPoint;
                dy = py currentPos - py lastPoint;
                distSq = dx * dx + dy * dy
            in distSq < TRAIL_POINT_DISTANCE * TRAIL_POINT_DISTANCE)
        then p
        else p\<lparr>trail := trail p @ [currentPos]\<rparr>)"

definition update_player :: "jsnum \<Rightarrow> player \<Rightarrow> player option" where
  "update_player dt p =
     (if isDead p then Some (p\<lparr>deathTimer := deathTimer p + dt\<rparr>)
      else
        let p1 = (if invulnerableTimer p > Fin 0
                  then p\<lparr>invulnerableTimer := invulnerableTimer p - dt\<rparr> else p)
        in map_option updatePlayerTrail (updatePlayerMovement p1 dt))"

text \<open>\<^verbatim>\<open>GameState.update\<close>: every player in the order of the map.\<close>

fun GameState_update :: "jsnum \<Rightarrow> game \<Rightarrow> game option" where
  "GameState_update dt [] = Some []"
| "GameState_update dt ((ident, p) # rest) =
     (case update_player dt p of
        None \<Rightarrow> None
      | Some p' \<Rightarrow> map_option (Cons (ident, p')) (GameState_update dt rest))"

definition setPlayerInput :: "string \<Rightarrow> jsnum \<Rightarrow> game \<Rightarrow> game" where
  "setPlayerInput ident ta g =
     (case map_of g ident of
        None \<Rightarrow> g
      | Some p \<Rightarrow>
          if isDead p then g
          else AList.update ident
                 ((p\<lparr>targetAngle := ta\<rparr>)\<lparr>speed := (if js_eq (speed p) (Fin 0) then PLAYER_SPEED else speed p)\<rparr>) g)"


section \<open>The spatial hash (\<^verbatim>\<open>SpatialHash.ts\<close>)\<close>

datatype item_type = Trail | Territory

text \<open>
  The objects stored in the hash.  The field \<^verbatim>\<open>type\<close> is \<open>itype\<close>; \<^verbatim>\<open>index\<close> is set on trail
  items only.
\<close>

record item =
  itype :: item_type
  playerId :: string
  p1 :: point
  p2 :: point
  index :: "nat option"

text \<open>
  The buckets, keyed by the pair of cell numbers (the program prints the pair into a string).
  A key without a bucket has the empty list.
\<close>

type_synonym hash = "jsnum \<times> jsnum \<Rightarrow> item list"

definition cellSize :: jsnum where "cellSize = Fin 100"

definition clear :: hash where
  "clear = (\<lambda>key. [])"

definition getKey :: "jsnum \<Rightarrow> jsnum \<Rightarrow> jsnum \<times> jsnum" where
  "getKey u v = (Math_floor (u / cellSize), Math_floor (v / cellSize))"

definition hash_insert :: "item \<Rightarrow> jsnum \<Rightarrow> jsnum \<Rightarrow> hash \<Rightarrow> hash" where
  "hash_insert obj u v h = h (getKey u v := h (getKey u v) @ [obj])"

definition insertSegment :: "item \<Rightarrow> point \<Rightarrow> point \<Rightarrow> hash \<Rightarrow> hash" where
  "insertSegment obj a b h =
     hash_insert obj ((px a + px b) / Fin 2) ((py a + py b) / Fin 2)
       (hash_insert obj (px b) (py b)
         (hash_insert obj (px a) (py a) h))"

definition query :: "hash \<Rightarrow> jsnum \<Rightarrow> jsnum \<Rightarrow> item list" where
  "query h u v =
     (let cx = Math_floor (u / cellSize);
          cy = Math_floor (v / cellSize)
      in concat (map (\<lambda>i. concat (map (\<lambda>j. h (cx + Fin i, cy + Fin j)) [- 1, 0, 1])) [- 1, 0, 1]))"

section \<open>Capture and collisions (\<^verbatim>\<open>GameRoom.ts\<close>)\<close>

definition killPlayer :: "player \<Rightarrow> player" where
  "killPlayer p = p\<lparr>isDead := True, deathTimer := Fin 0, trail := []\<rparr>"

definition calculateArea :: "point list \<Rightarrow> jsnum" where
  "calculateArea polygon =
     \<bar>fold (\<lambda>i area.
              let j = (i + 1) mod length polygon;
                  area1 = area + px (polygon ! i) * py (polygon ! j)
              in area1 - px (polygon ! j) * py (polygon ! i))
           [0..<length polygon] (Fin 0)\<bar> / Fin 2"

text \<open>The first phase of \<^verbatim>\<open>checkCaptureAndCollisions\<close>: index the live players.\<close>

definition index_player :: "string \<Rightarrow> player \<Rightarrow> hash \<Rightarrow> hash" where
  "index_player ident p h =
     (let h1 = fold (\<lambda>i. insertSegment
                            \<lparr>itype = Trail, playerId = ident, p1 = trail p ! i,
                             p2 = trail p ! (i + 1), index = Some i\<rparr>
                            (trail p ! i) (trail p ! (i + 1)))
                    [0..<length (trail p) - 1] h
      in fold (\<lambda>i. let a = territory p ! i;
                        b = territory p ! ((i + 1) mod length (territory p))
                    in insertSegment
                         \<lparr>itype = Territory, playerId = ident, p1 = a, p2 = b, index = None\<rparr> a b)
              [0..<length (territory p)] h1)"

definition build_hash :: "game \<Rightarrow> hash \<Rightarrow> hash" where
  "build_hash g h = fold (\<lambda>(ident, p) h'. if isDead p then h' else index_player ident p h') g h"

definition exit_detection :: "player \<Rightarrow> bool \<Rightarrow> point \<Rightarrow> point \<Rightarrow> player" where
  "exit_detection p isInside prevPos currentPos =
     (if \<not> isOutside p \<and> \<not> isInside \<and> invulnerableTimer p \<le> Fin 0
      then (case findBoundaryIntersection prevPos currentPos (territory p) of
              Some hit \<Rightarrow>
                p\<lparr>isOutside := True, exitPoint := Some (point hit),
                  exitEdgeIndex := int (edgeIndex hit), trail := [point hit]\<rparr>
            | None \<Rightarrow>
                p\<lparr>isOutside := True, exitPoint := Some prevPos, exitEdgeIndex := 0,
                  trail := [prevPos]\<rparr>)
      else p)"

text \<open>The tunneling fallback: the index of the vertex closest to the current position.\<close>

definition closest_vertex :: "point list \<Rightarrow> point \<Rightarrow> nat" where
  "closest_vertex terr currentPos =
     fst (fold (\<lambda>i (closestIdx, minD).
                  let d = Math_hypot (px (terr ! i) - px currentPos) (py (terr ! i) - py currentPos)
                  in if d < minD then (i, d) else (closestIdx, minD))
               [0..<length terr] (0, PInf))"

definition clear_trail_state :: "player \<Rightarrow> player" where
  "clear_trail_state p = p\<lparr>trail := [], isOutside := False, exitPoint := None, exitEdgeIndex := - 1\<rparr>"

definition commit :: "player \<Rightarrow> point list \<Rightarrow> jsnum \<Rightarrow> player" where
  "commit p newTerritory newArea =
     p\<lparr>territory := newTerritory, score := newArea, territoryChanged := True,
       invulnerableTimer := Fin 0.5\<rparr>"

text \<open>
  The body of the \<^verbatim>\<open>try\<close> block of the entry capture, after \<^verbatim>\<open>computeCapture\<close> has returned.
  The result is the player and the flag \<^verbatim>\<open>justCaptured\<close>, or the error thrown.
\<close>

definition entry_newTerritory :: "point list \<Rightarrow> point list" where
  "entry_newTerritory capturedPoly =
     (let nt0 = simplifyPolygon capturedPoly (Fin 1);
          nt1 = (if length nt0 > 400 then simplifyPolygon nt0 (Fin 2) else nt0)
      in ensureClockwise nt1)"

definition entry_commit :: "player \<Rightarrow> point list \<Rightarrow> error + player \<times> bool" where
  "entry_commit p capturedPoly =
     (let newTerritory = entry_newTerritory capturedPoly;
          isValid = list_all (\<lambda>q. \<not> isNaN (px q) \<and> \<not> isNaN (py q) \<and>
                                   isFinite (px q) \<and> isFinite (py q)) newTerritory
      in if \<not> isValid then Inl InvalidTerritory
         else
           let newArea = Math_floor (calculateArea newTerritory) in
           if length newTerritory > 3 \<and> newArea > Fin 100 \<and> isFinite newArea
           then Inr (commit p newTerritory newArea, True)
           else Inr (p, False))"

definition loop_newTerritory :: "point list \<Rightarrow> point list" where
  "loop_newTerritory capturedPoly =
     (let nt0 = simplifyPolygon capturedPoly (Fin 1)
      in if length nt0 > 400 then simplifyPolygon nt0 (Fin 2) else nt0)"

definition loop_commit :: "player \<Rightarrow> point list \<Rightarrow> error + player \<times> bool" where
  "loop_commit p capturedPoly =
     (let newTerritory = loop_newTerritory capturedPoly;
          isValid = list_all (\<lambda>q. \<not> isNaN (px q) \<and> \<not> isNaN (py q)) newTerritory
      in if \<not> isValid then Inl InvalidTerritory
         else
           let newArea = Math_floor (calculateArea newTerritory);
               oldArea = score p
           in if length newTerritory > 3 \<and> newArea > oldArea
              then Inr (commit p newTerritory newArea, True)
              else Inr (p, False))"

text \<open>
  \<^verbatim>\<open>try { ... } catch\<close>: an error thrown by \<^verbatim>\<open>computeCapture\<close> or by the body leaves the
  player as it was.
\<close>

definition try_capture ::
  "player \<Rightarrow> (player \<Rightarrow> point list \<Rightarrow> error + player \<times> bool) \<Rightarrow> error + point list \<Rightarrow> player \<times> bool" where
  "try_capture p body captured =
     (case captured of
        Inl e \<Rightarrow> (p, False)
      | Inr capturedPoly \<Rightarrow>
          (case body p capturedPoly of Inl e \<Rightarrow> (p, False) | Inr res \<Rightarrow> res))"

text \<open>
  The entry point and entry edge: the first boundary edge crossed by the move, or, when none is
  found, the current position with the closest vertex.
\<close>

definition entry_hit :: "player \<Rightarrow> point \<Rightarrow> point \<Rightarrow> point \<times> int" where
  "entry_hit p prevPos currentPos =
     (case findBoundaryIntersection prevPos currentPos (territory p) of
        Some hit \<Rightarrow> (point hit, int (edgeIndex hit))
      | None \<Rightarrow> (currentPos, int (closest_vertex (territory p) currentPos)))"

definition entry_detection ::
  "player \<Rightarrow> bool \<Rightarrow> point \<Rightarrow> point \<Rightarrow> (player \<times> bool) option" where
  "entry_detection p isInside prevPos currentPos =
     (if isOutside p \<and> isInside
      then
        (case exitPoint p of
           None \<Rightarrow> Some (p, False)
         | Some exitPt \<Rightarrow>
             if length (trail p) > 2
             then (case computeCapture (territory p) (trail p) exitPt (exitEdgeIndex p)
                          (fst (entry_hit p prevPos currentPos))
                          (snd (entry_hit p prevPos currentPos)) of
                     None \<Rightarrow> None
                   | Some captured \<Rightarrow>
                       Some (clear_trail_state (fst (try_capture p entry_commit captured)),
                             snd (try_capture p entry_commit captured)))
             else Some (p, False))
      else Some (p, False))"

definition distToExit :: "point \<Rightarrow> point \<Rightarrow> jsnum" where
  "distToExit currentPos exitPt =
     Math_sqrt (Math_pow2 (px currentPos - px exitPt) + Math_pow2 (py currentPos - py exitPt))"

definition loop_closure ::
  "player \<Rightarrow> bool \<Rightarrow> point \<Rightarrow> bool \<Rightarrow> (player \<times> bool) option" where
  "loop_closure p isInside currentPos justCaptured =
     (case exitPoint p of
        None \<Rightarrow> Some (p, justCaptured)
      | Some exitPt \<Rightarrow>
          if isOutside p \<and> \<not> isInside \<and> length (trail p) > 10 \<and>
             distToExit currentPos exitPt < Fin 80
          then (case computeCapture (territory p) (trail p) exitPt (exitEdgeIndex p)
                       exitPt (exitEdgeIndex p) of
                  None \<Rightarrow> None
                | Some captured \<Rightarrow>
                    Some (clear_trail_state (fst (try_capture p loop_commit captured)),
                          justCaptured \<or> snd (try_capture p loop_commit captured)))
          else Some (p, justCaptured))"

text \<open>Exit, entry and loop closure, in this order, for one player.\<close>

definition capture_phase ::
  "player \<Rightarrow> bool \<Rightarrow> point \<Rightarrow> point \<Rightarrow> (player \<times> bool) option" where
  "capture_phase p isInside prevPos currentPos =
     (case entry_detection (exit_detection p isInside prevPos currentPos)
             isInside prevPos currentPos of
        None \<Rightarrow> None
      | Some (pb, justCaptured) \<Rightarrow> loop_closure pb isInside currentPos justCaptured)"

definition worldRadius :: jsnum where
  "worldRadius = (WORLD_WIDTH / Fin 2) - Fin 1"

definition worldArea :: jsnum where
  "worldArea = Math_PI * worldRadius * worldRadius"

definition winThreshold :: jsnum where
  "winThreshold = worldArea * Fin 0.99"

definition victory :: "player \<Rightarrow> player" where
  "victory p =
     (let pw = (if \<not> hasWon p then p\<lparr>hasWon := True\<rparr> else p)
      in if isOutside pw
         then pw\<lparr>isOutside := False, trail := [], exitPoint := None, exitEdgeIndex := - 1\<rparr>
         else pw)"

definition isNearExitPoint :: "player \<Rightarrow> point \<Rightarrow> bool" where
  "isNearExitPoint p currentPos =
     (case exitPoint p of
        None \<Rightarrow> False
      | Some exitPt \<Rightarrow> distToExit currentPos exitPt < Fin 100)"

definition index_gap :: "player \<Rightarrow> item \<Rightarrow> bool" where
  "index_gap p it =
     (case index it of
        None \<Rightarrow> False
      | Some i \<Rightarrow> int (length (trail p)) - int i > 20)"

text \<open>The two tests made on a nearby item: a foreign trail is cut, the own trail is hit.\<close>

definition cuts_foreign :: "string \<Rightarrow> point \<Rightarrow> point \<Rightarrow> item \<Rightarrow> bool" where
  "cuts_foreign ident prevPos currentPos it =
     (playerId it \<noteq> ident \<and> itype it = Trail \<and>
      segmentsIntersect prevPos currentPos (p1 it) (p2 it))"

definition hits_self :: "string \<Rightarrow> player \<Rightarrow> bool \<Rightarrow> point \<Rightarrow> point \<Rightarrow> item \<Rightarrow> bool" where
  "hits_self ident p isInside prevPos currentPos it =
     (playerId it = ident \<and> itype it = Trail \<and>
      \<not> isInside \<and> \<not> isNearExitPoint p currentPos \<and> index_gap p it \<and>
      segmentsIntersect prevPos currentPos (p1 it) (p2 it))"

definition kill_victim :: "string \<Rightarrow> game \<Rightarrow> game" where
  "kill_victim victimId g =
     (case getPlayer g victimId of
        None \<Rightarrow> g
      | Some victim \<Rightarrow>
          if isOutside victim then AList.update victimId (killPlayer victim) g else g)"

text \<open>
  The loop over the nearby items.  The moving player \<open>p\<close> is stored under \<open>ident\<close>; a victim is
  looked up under the item's \<^verbatim>\<open>playerId\<close> and killed in the game state; the loop goes on after
  a victim and stops (\<^verbatim>\<open>break\<close>) when the moving player kills itself.
\<close>

fun collision_loop ::
  "string \<Rightarrow> player \<Rightarrow> bool \<Rightarrow> point \<Rightarrow> point \<Rightarrow> item list \<Rightarrow> game \<Rightarrow> game" where
  "collision_loop ident p isInside prevPos currentPos [] g = g"
| "collision_loop ident p isInside prevPos currentPos (it # nearby) g =
     (let g1 = (if cuts_foreign ident prevPos currentPos it
                then kill_victim (playerId it) g else g)
      in if hits_self ident p isInside prevPos currentPos it
         then AList.update ident (killPlayer p) g1
         else collision_loop ident p isInside prevPos currentPos nearby g1)"

definition currentPos_of :: "player \<Rightarrow> point" where
  "currentPos_of p = \<lparr>px = posx p, py = posy p\<rparr>"

definition prevPos_of :: "player \<Rightarrow> point" where
  "prevPos_of p = \<lparr>px = js_or (prevX p) (posx p), py = js_or (prevY p) (posy p)\<rparr>"

text \<open>
  The end of a round, for a player \<open>pc\<close> that has gone through the capture phase: nothing more
  after a capture, victory at the threshold, else the collisions of an outside player.
\<close>

definition collision_phase ::
  "hash \<Rightarrow> string \<Rightarrow> player \<Rightarrow> bool \<Rightarrow> bool \<Rightarrow> point \<Rightarrow> point \<Rightarrow> game \<Rightarrow> game" where
  "collision_phase h ident pc justCaptured isInside prevPos currentPos g =
     (if justCaptured then AList.update ident pc g
      else if score pc \<ge> winThreshold then AList.update ident (victory pc) g
      else if isOutside pc
      then collision_loop ident pc isInside prevPos currentPos
             (query h (posx pc) (posy pc)) (AList.update ident pc g)
      else AList.update ident pc g)"

text \<open>One round of the second loop of \<^verbatim>\<open>checkCaptureAndCollisions\<close>, for the player \<open>ident\<close>.\<close>

definition check_player :: "hash \<Rightarrow> string \<Rightarrow> game \<Rightarrow> game option" where
  "check_player h ident g =
     (case getPlayer g ident of
        None \<Rightarrow> Some g
      | Some p \<Rightarrow>
          if isDead p then Some g
          else
            let currentPos = currentPos_of p;
                prevPos = prevPos_of p;
                isInside = isPointInPolygon currentPos (territory p)
            in (case capture_phase p isInside prevPos currentPos of
                  None \<Rightarrow> None
                | Some (pc, justCaptured) \<Rightarrow>
                    Some (collision_phase h ident pc justCaptured isInside prevPos currentPos g)))"

fun check_players :: "hash \<Rightarrow> string list \<Rightarrow> game \<Rightarrow> game option" where
  "check_players h [] g = Some g"
| "check_players h (ident # idents) g =
     (case check_player h ident g of
        None \<Rightarrow> None
      | Some g' \<Rightarrow> check_players h idents g')"

definition checkCaptureAndCollisions :: "hash \<Rightarrow> game \<Rightarrow> game option" where
  "checkCaptureAndCollisions h g = check_players (build_hash g h) (map fst g) g"

text \<open>
  The bots of a tick, in the order of the map of bots: a bot without a player is dropped, a bot
  dead for more than a second is removed from the game, and the brain of a live bot calls
  \<^verbatim>\<open>setPlayerInput\<close> at most once, with an angle of its choice (\<open>None\<close>: no call).
\<close>

fun bot_phase :: "(string \<times> jsnum option) list \<Rightarrow> game \<Rightarrow> game" where
  "bot_phase [] g = g"
| "bot_phase ((botId, decision) # bots) g =
     bot_phase bots
       (case getPlayer g botId of
          None \<Rightarrow> g
        | Some p \<Rightarrow>
            if isDead p \<and> deathTimer p > Fin 1 then removePlayer botId g
            else if \<not> isDead p
            then (case decision of None \<Rightarrow> g | Some ta \<Rightarrow> setPlayerInput botId ta g)
            else g)"

text \<open>\<^verbatim>\<open>GameRoom.update\<close>: physics, bots, then captures and collisions on a cleared hash.\<close>

definition GameRoom_update :: "jsnum \<Rightarrow> (string \<times> jsnum option) list \<Rightarrow> game \<Rightarrow> game option" where
  "GameRoom_update dt bots g =
     (case GameState_update dt g of
        None \<Rightarrow> None
      | Some g1 \<Rightarrow> checkCaptureAndCollisions clear (bot_phase bots g1))"

text \<open>
  The states of a room: players join (humans and bots) at some spawn point, leave, send an
  input, and the room ticks.
\<close>

inductive reachable :: "game \<Rightarrow> bool" where
  init: "reachable []"
| join: "reachable g \<Longrightarrow> reachable (createPlayer ident cx cy col g)"
| leave: "reachable g \<Longrightarrow> reachable (removePlayer ident g)"
| input: "reachable g \<Longrightarrow> reachable (setPlayerInput ident ta g)"
| tick: "reachable g \<Longrightarrow> GameRoom_update dt bots g = Some g' \<Longrightarrow> reachable g'"

section \<open>Notions used in the proofs\<close>

text \<open>
  The test made by \<open>isPointInPolygon\<close> in round \<open>k\<close>: the edge from vertex \<open>k\<close> back to its
  predecessor on the cycle.
\<close>

definition crossing :: "point \<Rightarrow> point list \<Rightarrow> nat \<Rightarrow> bool" where
  "crossing pt polygon k =
     edge_intersect pt (polygon ! k) (polygon ! ((k + length polygon - 1) mod length polygon))"

definition fpoint :: "real \<Rightarrow> real \<Rightarrow> point" where
  "fpoint a b = \<lparr>px = Fin a, py = Fin b\<rparr>"


text \<open>
  Two players at the centre of the arena, standing still: one heading 3 and steering to 4, one
  heading 0 whose target angle is 1e17.
\<close>

definition p_turn :: player where
  "p_turn =
     \<lparr>posx = Fin 2500, posy = Fin 2500, angle = Fin 3, targetAngle = Fin 4, speed = Fin 0,
      color = ''#FF6B6B'',
      territory = [fpoint 2400 2400, fpoint 2600 2400, fpoint 2600 2600, fpoint 2400 2600],
      trail = [], isOutside = False, exitPoint = None,
      exitEdgeIndex = - 1, isDead = False, deathTimer = Fin 0, score = Fin 40000,
      invulnerableTimer = Fin 0, hasWon = False, prevX = None, prevY = None,
      territoryChanged = False\<rparr>"

definition p_spin :: player where
  "p_spin = p_turn\<lparr>angle := Fin 0, targetAngle := Fin 100000000000000000\<rparr>"

text \<open>
  A player that left its square territory through the edge \<open>y = 0\<close> at \<open>(70, 0)\<close>, walked a
  rectangle below it and now re-enters through the same edge at \<open>(30, 0)\<close>.
\<close>

definition square100 :: "point list" where
  "square100 = [fpoint 0 0, fpoint 100 0, fpoint 100 100, fpoint 0 100]"

definition p_entry :: player where
  "p_entry =
     \<lparr>posx = Fin 30, posy = Fin 5, angle = Fin (pi / 2), targetAngle = Fin (pi / 2),
      speed = Fin 500, color = ''#FF6B6B'',
      territory = square100,
      trail = [fpoint 70 0, fpoint 70 (- 20), fpoint 30 (- 20)],
      isOutside = True, exitPoint = Some (fpoint 70 0),
      exitEdgeIndex = 0, isDead = False, deathTimer = Fin 0, score = Fin 10000,
      invulnerableTimer = Fin 0, hasWon = False, prevX = Some (Fin 30), prevY = Some (Fin (- 5)),
      territoryChanged = False\<rparr>"

text \<open>The outcome of a round in which the player \<open>p\<close> re-enters its territory with a trail.\<close>

definition entry_result :: "player \<Rightarrow> error + point list \<Rightarrow> player" where
  "entry_result p captured =
     (let r = try_capture p entry_commit captured;
          q = clear_trail_state (fst r)
      in if snd r then q else if score q \<ge> winThreshold then victory q else q)"

text \<open>The outcome of a round in which the player \<open>p\<close> closes its loop in open space.\<close>

definition loop_result :: "player \<Rightarrow> error + point list \<Rightarrow> player" where
  "loop_result p captured =
     (let r = try_capture p loop_commit captured;
          q = clear_trail_state (fst r)
      in if snd r then q else if score q \<ge> winThreshold then victory q else q)"

text \<open>The polygon computed for \<open>p_entry\<close>, and its simplification.\<close>

definition entry_captured :: "point list" where
  "entry_captured =
     [fpoint 70 0, fpoint 70 0, fpoint 70 (- 20), fpoint 30 (- 20), fpoint 30 0,
      fpoint 100 0, fpoint 100 100, fpoint 0 100, fpoint 0 0]"

definition entry_territory :: "point list" where
  "entry_territory =
     [fpoint 70 0, fpoint 70 (- 20), fpoint 30 (- 20), fpoint 30 0,
      fpoint 100 0, fpoint 100 100, fpoint 0 100, fpoint 0 0]"

text \<open>
  A player that left the same square at \<open>(50, 0)\<close>, walked a loop below it and is back within 80
  units of its exit point, still outside.
\<close>

definition loop_trail :: "point list" where
  "loop_trail =
     [fpoint 50 0, fpoint 30 (- 5), fpoint 10 (- 5), fpoint (- 10) (- 5), fpoint (- 10) (- 20),
      fpoint (- 10) (- 40), fpoint (- 10) (- 60), fpoint 10 (- 60), fpoint 30 (- 60),
      fpoint 50 (- 60), fpoint 50 (- 40), fpoint 50 (- 20)]"

definition p_loop :: player where
  "p_loop =
     \<lparr>posx = Fin 50, posy = Fin (- 10), angle = Fin (pi / 2), targetAngle = Fin (pi / 2),
      speed = Fin 500, color = ''#4ECDC4'',
      territory = square100,
      trail = loop_trail,
      isOutside = True, exitPoint = Some (fpoint 50 0),
      exitEdgeIndex = 0, isDead = False, deathTimer = Fin 0, score = Fin 10000,
      invulnerableTimer = Fin 0, hasWon = False, prevX = Some (Fin 50), prevY = Some (Fin (- 18)),
      territoryChanged = False\<rparr>"

text \<open>An item is somewhere in the hash.\<close>

definition in_hash :: "hash \<Rightarrow> item \<Rightarrow> bool" where
  "in_hash h it = (\<exists>key. it \<in> set (h key))"

text \<open>
  The invariant behind the immunity of a winner: a victorious player is alive, not outside, and
  its score is at least the win threshold.
\<close>

definition won_ok :: "player \<Rightarrow> bool" where
  "won_ok q = (if hasWon q then \<not> isDead q \<and> \<not> isOutside q \<and> winThreshold \<le> score q else True)"

definition won_inv :: "game \<Rightarrow> bool" where
  "won_inv g = list_all (\<lambda>k. case getPlayer g k of None \<Rightarrow> True | Some q \<Rightarrow> won_ok q) (map fst g)"

text \<open>
  The outcome of a \<^verbatim>\<open>try\<close> block that commits: a polygon with more than 3 vertices whose floored
  area satisfies the test \<open>ok\<close> of the block replaces the territory.
\<close>

definition committed :: "(jsnum \<Rightarrow> bool) \<Rightarrow> player \<Rightarrow> player \<Rightarrow> bool" where
  "committed ok p q =
     (\<exists>nt. q = commit p nt (Math_floor (calculateArea nt)) \<and> 3 < length nt \<and>
           ok (Math_floor (calculateArea nt)))"

text \<open>
  A territory that fills the arena almost entirely: 32 vertices with whole coordinates near
  the circle of radius 2495 around the centre, of area 19431664.  Its owner stands at the
  centre.
\<close>

definition arena32 :: "point list" where
  "arena32 =
     [fpoint 4995 2500, fpoint 4947 2987, fpoint 4805 3455, fpoint 4575 3886,
      fpoint 4264 4264, fpoint 3886 4575, fpoint 3455 4805, fpoint 2987 4947,
      fpoint 2500 4995, fpoint 2013 4947, fpoint 1545 4805, fpoint 1114 4575,
      fpoint 736 4264, fpoint 425 3886, fpoint 195 3455, fpoint 53 2987,
      fpoint 5 2500, fpoint 53 2013, fpoint 195 1545, fpoint 425 1114,
      fpoint 736 736, fpoint 1114 425, fpoint 1545 195, fpoint 2013 53,
      fpoint 2500 5, fpoint 2987 53, fpoint 3455 195, fpoint 3886 425,
      fpoint 4264 736, fpoint 4575 1114, fpoint 4805 1545, fpoint 4947 2013]"

definition p_win :: player where
  "p_win =
     \<lparr>posx = Fin 2500, posy = Fin 2500, angle = Fin 0, targetAngle = Fin 0,
      speed = Fin 500, color = ''#45B7D1'',
      territory = arena32, trail = [], isOutside = False, exitPoint = None,
      exitEdgeIndex = - 1, isDead = False, deathTimer = Fin 0, score = Fin 19431664,
      invulnerableTimer = Fin 0, hasWon = False, prevX = Some (Fin 2495), prevY = Some (Fin 2500),
      territoryChanged = False\<rparr>"

text \<open>
  A player with a small territory just below the top of the arena, whose trail runs once
  around the arena along 32 points near the circle of radius 2499 and comes back to the exit
  point; the polygon that the loop closure computes, and its simplification.
\<close>

definition top_square :: "point list" where
  "top_square = [fpoint 2450 4800, fpoint 2550 4800, fpoint 2550 4900, fpoint 2450 4900]"

definition ring32 :: "point list" where
  "ring32 =
     [fpoint 2500 4998, fpoint 2013 4950, fpoint 1544 4808, fpoint 1112 4577,
      fpoint 734 4266, fpoint 423 3888, fpoint 192 3456, fpoint 50 2987,
      fpoint 2 2500, fpoint 50 2013, fpoint 192 1544, fpoint 423 1112,
      fpoint 734 734, fpoint 1112 423, fpoint 1544 192, fpoint 2013 50,
      fpoint 2500 2, fpoint 2987 50, fpoint 3456 192, fpoint 3888 423,
      fpoint 4266 734, fpoint 4577 1112, fpoint 4808 1544, fpoint 4950 2013,
      fpoint 4998 2500, fpoint 4950 2987, fpoint 4808 3456, fpoint 4577 3888,
      fpoint 4266 4266, fpoint 3888 4577, fpoint 3456 4808, fpoint 2987 4950]"

definition p_final :: player where
  "p_final =
     \<lparr>posx = Fin 2530, posy = Fin 4950, angle = Fin pi, targetAngle = Fin pi,
      speed = Fin 500, color = ''#FFA07A'',
      territory = top_square, trail = fpoint 2500 4900 # ring32,
      isOutside = True, exitPoint = Some (fpoint 2500 4900),
      exitEdgeIndex = 2, isDead = False, deathTimer = Fin 0, score = Fin 10000,
      invulnerableTimer = Fin 0, hasWon = False, prevX = Some (Fin 2538), prevY = Some (Fin 4950),
      territoryChanged = False\<rparr>"

definition final_captured :: "point list" where
  "final_captured =
     [fpoint 2500 4900, fpoint 2500 4900] @ ring32 @
     [fpoint 2500 4900, fpoint 2450 4900, fpoint 2450 4800, fpoint 2550 4800, fpoint 2550 4900]"

definition final_territory :: "point list" where
  "final_territory =
     [fpoint 2500 4900] @ ring32 @
     [fpoint 2500 4900, fpoint 2450 4900, fpoint 2450 4800, fpoint 2550 4800, fpoint 2550 4900]"

text \<open>
  What a round may do to a player stored under \<open>k\<close>: a dead player stays dead with the same
  flag \<^verbatim>\<open>isOutside\<close>; a live player dies only outside, and only if the hash holds a trail item
  of \<open>k\<close>.
\<close>

definition has_trail_item :: "hash \<Rightarrow> string \<Rightarrow> bool" where
  "has_trail_item h k = (\<exists>it. in_hash h it \<and> itype it = Trail \<and> playerId it = k)"

definition round_ok :: "hash \<Rightarrow> string \<Rightarrow> player \<Rightarrow> player \<Rightarrow> bool" where
  "round_ok h k q q' =
     (if isDead q then isDead q' \<and> isOutside q' = isOutside q
      else if isDead q' then isOutside q' \<and> has_trail_item h k else True)"

text \<open>
  Two players outside their territories: \<open>p_cut\<close> moves down across the last segment of the
  trail of \<open>p_victim\<close>.
\<close>

definition victim_square :: "point list" where
  "victim_square = [fpoint 125 (- 100), fpoint 225 (- 100), fpoint 225 0, fpoint 125 0]"

definition victim_trail :: "point list" where
  "victim_trail =
     [fpoint 125 (- 25), fpoint 115 (- 25), fpoint 105 (- 25), fpoint 95 (- 25), fpoint 85 (- 25),
      fpoint 75 (- 25), fpoint 65 (- 25), fpoint 55 (- 25), fpoint 45 (- 25)]"

definition p_cut :: player where
  "p_cut =
     \<lparr>posx = Fin 50, posy = Fin (- 30), angle = Fin (- 1.5708), targetAngle = Fin (- 1.5708),
      speed = Fin 500, color = ''#FF6B6B'',
      territory = square100, trail = [fpoint 50 0, fpoint 50 (- 10), fpoint 50 (- 20)],
      isOutside = True, exitPoint = Some (fpoint 50 0),
      exitEdgeIndex = 0, isDead = False, deathTimer = Fin 0, score = Fin 10000,
      invulnerableTimer = Fin 0, hasWon = False, prevX = Some (Fin 50), prevY = Some (Fin (- 22)),
      territoryChanged = False\<rparr>"

definition p_victim :: player where
  "p_victim =
     \<lparr>posx = Fin 37, posy = Fin (- 25), angle = Fin 3.1416, targetAngle = Fin 3.1416,
      speed = Fin 500, color = ''#4ECDC4'',
      territory = victim_square, trail = victim_trail,
      isOutside = True, exitPoint = Some (fpoint 125 (- 25)),
      exitEdgeIndex = 3, isDead = False, deathTimer = Fin 0, score = Fin 10000,
      invulnerableTimer = Fin 0, hasWon = False, prevX = Some (Fin 45), prevY = Some (Fin (- 25)),
      territoryChanged = False\<rparr>"

definition cut_game :: game where
  "cut_game = [(''a'', p_cut), (''b'', p_victim)]"

definition cut_item :: item where
  "cut_item = \<lparr>itype = Trail, playerId = ''b'', p1 = fpoint 55 (- 25), p2 = fpoint 45 (- 25),
                index = Some 7\<rparr>"

text \<open>
  Two more players outside their territories.  The move of \<open>p_late\<close> crosses the second
  segment of the trail of \<open>p_entry\<close>; the last segment of the trail of \<open>p_cross\<close> is crossed by
  the move of \<open>p_entry\<close>.
\<close>

definition p_late :: player where
  "p_late =
     \<lparr>posx = Fin 50, posy = Fin (- 19), angle = Fin 1.5708, targetAngle = Fin 1.5708,
      speed = Fin 500, color = ''#45B7D1'',
      territory = [fpoint 0 (- 200), fpoint 100 (- 200), fpoint 100 (- 100), fpoint 0 (- 100)],
      trail = [fpoint 50 (- 100), fpoint 50 (- 88), fpoint 50 (- 76), fpoint 50 (- 64),
               fpoint 50 (- 52), fpoint 50 (- 40), fpoint 50 (- 28)],
      isOutside = True, exitPoint = Some (fpoint 50 (- 100)),
      exitEdgeIndex = 2, isDead = False, deathTimer = Fin 0, score = Fin 10000,
      invulnerableTimer = Fin 0, hasWon = False, prevX = Some (Fin 50), prevY = Some (Fin (- 27)),
      territoryChanged = False\<rparr>"

definition p_cross :: player where
  "p_cross =
     \<lparr>posx = Fin 44, posy = Fin (- 2), angle = Fin 0, targetAngle = Fin 0,
      speed = Fin 500, color = ''#FFA07A'',
      territory = [fpoint (- 100) (- 100), fpoint 0 (- 100), fpoint 0 0, fpoint (- 100) 0],
      trail = [fpoint 0 (- 2), fpoint 12 (- 2), fpoint 24 (- 2), fpoint 36 (- 2)],
      isOutside = True, exitPoint = Some (fpoint 0 (- 2)),
      exitEdgeIndex = 1, isDead = False, deathTimer = Fin 0, score = Fin 10000,
      invulnerableTimer = Fin 0, hasWon = False, prevX = Some (Fin 36), prevY = Some (Fin (- 2)),
      territoryChanged = False\<rparr>"

text \<open>Two versions of a player with the same flags and the same score.\<close>

definition same_status :: "player \<Rightarrow> player \<Rightarrow> bool" where
  "same_status q q' =
     (hasWon q' = hasWon q \<and> isDead q' = isDead q \<and> isOutside q' = isOutside q \<and>
      score q' = score q)"

text \<open>
  The cells of the hash: those in which \<^verbatim>\<open>insertSegment\<close> stores a segment (its two endpoints
  and its midpoint), those that \<^verbatim>\<open>query\<close> reads around a position, in the order in which it
  reads them, and the segments that the two have in common.
\<close>

definition segment_keys :: "point \<Rightarrow> point \<Rightarrow> (jsnum \<times> jsnum) list" where
  "segment_keys a b =
     [getKey (px a) (py a), getKey (px b) (py b),
      getKey ((px a + px b) / Fin 2) ((py a + py b) / Fin 2)]"

definition query_keys :: "jsnum \<Rightarrow> jsnum \<Rightarrow> (jsnum \<times> jsnum) list" where
  "query_keys u v =
     concat (map (\<lambda>i. map (\<lambda>j. (Math_floor (u / cellSize) + Fin i, Math_floor (v / cellSize) + Fin j))
                          [- 1, 0, 1]) [- 1, 0, 1])"

definition indexed_near :: "point \<Rightarrow> point \<Rightarrow> jsnum \<Rightarrow> jsnum \<Rightarrow> bool" where
  "indexed_near a b u v = list_ex (\<lambda>key. key \<in> set (query_keys u v)) (segment_keys a b)"

text \<open>The item that the first phase stores for segment \<open>i\<close> of the trail of the player \<open>q\<close>.\<close>

definition trail_item :: "string \<Rightarrow> player \<Rightarrow> nat \<Rightarrow> item" where
  "trail_item k q i =
     \<lparr>itype = Trail, playerId = k, p1 = trail q ! i, p2 = trail q ! (i + 1), index = Some i\<rparr>"

text \<open>
  The self-collision test of a round, on the segments of the trail \<open>old\<close> that the player had
  when the hash was built: the player \<open>p\<close> is not inside its territory and not near its exit
  point, and its move crosses a segment more than 20 places behind its head.
\<close>

definition own_hit :: "point list \<Rightarrow> player \<Rightarrow> bool \<Rightarrow> point \<Rightarrow> point \<Rightarrow> bool" where
  "own_hit old p isInside prevPos currentPos =
     (\<not> isInside \<and> \<not> isNearExitPoint p currentPos \<and>
      list_ex (\<lambda>i. int (length (trail p)) - int i > 20 \<and>
                   segmentsIntersect prevPos currentPos (old ! i) (old ! (i + 1)))
        [0..<length old - 1])"

text \<open>
  A player whose trail is one segment of length 800, from its exit point at \<open>(-150, -25)\<close> to
  \<open>(650, -25)\<close>: the move of \<open>p_cut\<close> crosses it at \<open>(50, -25)\<close>.
\<close>

definition p_long :: player where
  "p_long =
     \<lparr>posx = Fin 658, posy = Fin (- 25), angle = Fin 0, targetAngle = Fin 0,
      speed = Fin 500, color = ''#4ECDC4'',
      territory = [fpoint (- 250) (- 100), fpoint (- 150) (- 100), fpoint (- 150) 0, fpoint (- 250) 0],
      trail = [fpoint (- 150) (- 25), fpoint 650 (- 25)],
      isOutside = True, exitPoint = Some (fpoint (- 150) (- 25)),
      exitEdgeIndex = 1, isDead = False, deathTimer = Fin 0, score = Fin 10000,
      invulnerableTimer = Fin 0, hasWon = False, prevX = Some (Fin 650), prevY = Some (Fin (- 25)),
      territoryChanged = False\<rparr>"

text \<open>
  A player that has walked a loop of 24 trail points and now moves from \<open>(96, -196)\<close> to
  \<open>(104, -196)\<close>, across the second segment of its own trail (at \<open>x = 98\<close>) and across the trail
  of \<open>p_graze\<close> (at \<open>x = 102\<close>), more than 200 units away from its exit point.
\<close>

definition self_trail :: "point list" where
  "self_trail =
     [fpoint 98 (- 400), fpoint 98 (- 205), fpoint 98 (- 190), fpoint 98 (- 180),
      fpoint 98 (- 170), fpoint 98 (- 160), fpoint 98 (- 150), fpoint 88 (- 150),
      fpoint 78 (- 150), fpoint 68 (- 150), fpoint 58 (- 150), fpoint 48 (- 150),
      fpoint 38 (- 150), fpoint 38 (- 160), fpoint 38 (- 170), fpoint 38 (- 180),
      fpoint 38 (- 190), fpoint 38 (- 196), fpoint 48 (- 196), fpoint 58 (- 196),
      fpoint 68 (- 196), fpoint 78 (- 196), fpoint 88 (- 196), fpoint 96 (- 196)]"

definition p_self :: player where
  "p_self =
     \<lparr>posx = Fin 104, posy = Fin (- 196), angle = Fin 0, targetAngle = Fin 0,
      speed = Fin 500, color = ''#FF6B6B'',
      territory = [fpoint (- 2) (- 500), fpoint 198 (- 500), fpoint 198 (- 400), fpoint (- 2) (- 400)],
      trail = self_trail,
      isOutside = True, exitPoint = Some (fpoint 98 (- 400)),
      exitEdgeIndex = 2, isDead = False, deathTimer = Fin 0, score = Fin 20000,
      invulnerableTimer = Fin 0, hasWon = False, prevX = Some (Fin 96), prevY = Some (Fin (- 196)),
      territoryChanged = False\<rparr>"

definition p_graze :: player where
  "p_graze =
     \<lparr>posx = Fin 102, posy = Fin (- 186), angle = Fin 1.5708, targetAngle = Fin 1.5708,
      speed = Fin 500, color = ''#4ECDC4'',
      territory = [fpoint 60 (- 300), fpoint 160 (- 300), fpoint 160 (- 199), fpoint 60 (- 199)],
      trail = [fpoint 102 (- 199), fpoint 102 (- 192)],
      isOutside = True, exitPoint = Some (fpoint 102 (- 199)),
      exitEdgeIndex = 2, isDead = False, deathTimer = Fin 0, score = Fin 10100,
      invulnerableTimer = Fin 0, hasWon = False, prevX = Some (Fin 102), prevY = Some (Fin (- 192)),
      territoryChanged = False\<rparr>"

text \<open>
  The owner of \<open>arena32\<close> steps out of its territory through the top vertex, across the last
  segment of the trail of \<open>p_edge\<close>, which runs between the territory and the rim of the arena.
\<close>

definition p_champ :: player where
  "p_champ =
     p_win\<lparr>posx := Fin 2500, posy := Fin 4998, prevX := Some (Fin 2500), prevY := Some (Fin 4993),
       angle := Fin 1.5708, targetAngle := Fin 1.5708\<rparr>"

definition p_edge :: player where
  "p_edge =
     \<lparr>posx = Fin 2518, posy = Fin 4996, angle = Fin 0, targetAngle = Fin 0,
      speed = Fin 500, color = ''#FFA07A'',
      territory = top_square,
      trail = [fpoint 2460 4900, fpoint 2460 4932, fpoint 2460 4964, fpoint 2460 4996,
               fpoint 2490 4996, fpoint 2510 4996],
      isOutside = True, exitPoint = Some (fpoint 2460 4900),
      exitEdgeIndex = 2, isDead = False, deathTimer = Fin 0, score = Fin 10000,
      invulnerableTimer = Fin 0, hasWon = False, prevX = Some (Fin 2510), prevY = Some (Fin 4996),
      territoryChanged = False\<rparr>"

section \<open>Rounding to a double\<close>

lemma round_even_near: "\<bar>x - of_int n\<bar> < 1 / 2 \<Longrightarrow> round_even x = n"
proof -
  assume a: "\<bar>x - of_int n\<bar> < 1 / 2"
  show ?thesis
  proof (cases "of_int n \<le> x")
    case True
    then have "\<lfloor>x\<rfloor> = n" using a by (intro floor_unique) auto
    then show ?thesis using a True by (simp add: round_even_def Let_def)
  next
    case False
    then have f: "\<lfloor>x\<rfloor> = n - 1" using a by (intro floor_unique) auto
    have "1 / 2 < x - of_int (n - 1)" using a False by auto
    then show ?thesis using f by (simp add: round_even_def Let_def)
  qed
qed

lemma round_even_int [simp]: "round_even (of_int n) = n"
  by (rule round_even_near) simp

lemma round_even_err: "\<bar>of_int (round_even x) - x\<bar> \<le> 1 / 2"
proof -
  have "of_int \<lfloor>x\<rfloor> \<le> x" "x < of_int \<lfloor>x\<rfloor> + 1" by linarith+
  then show ?thesis by (auto simp: round_even_def Let_def)
qed

lemma quantum_pos: "0 < quantum x"
  by (simp add: quantum_def)

lemma floor_log2_le:
  assumes "x \<noteq> 0" "\<bar>x\<bar> < 2 powr (of_int b + 1)"
  shows "\<lfloor>log 2 \<bar>x\<bar>\<rfloor> \<le> b"
proof -
  have "log 2 \<bar>x\<bar> < of_int b + 1"
    using assms by (simp add: log_less_iff)
  then show ?thesis by (simp add: floor_le_iff)
qed

lemma floor_log2_ge:
  assumes "2 powr of_int e \<le> \<bar>x\<bar>"
  shows "e \<le> \<lfloor>log 2 \<bar>x\<bar>\<rfloor>"
proof -
  have p: "0 < \<bar>x\<bar>" using assms powr_gt_zero [of 2 "of_int e"] by linarith
  have "of_int e \<le> log 2 \<bar>x\<bar>" using assms p by (simp add: le_log_iff)
  then show ?thesis by (simp add: le_floor_iff)
qed

lemma quantum_eval:
  assumes "2 powr of_int e \<le> \<bar>x\<bar>" "\<bar>x\<bar> < 2 powr (of_int e + 1)" "- 1022 \<le> e"
  shows "quantum x = 2 powr (of_int e - 52)"
proof -
  have p: "0 < \<bar>x\<bar>" using assms(1) powr_gt_zero [of 2 "of_int e"] by linarith
  then have "x \<noteq> 0" by auto
  from floor_log2_le [OF this assms(2)] floor_log2_ge [OF assms(1)]
  have "\<lfloor>log 2 \<bar>x\<bar>\<rfloor> = e" by simp
  then show ?thesis using assms(3) by (simp add: quantum_def max_def)
qed

lemma quantum_le:
  assumes "x \<noteq> 0" "\<bar>x\<bar> < 2 powr (of_int b + 1)" "- 1022 \<le> b"
  shows "quantum x \<le> 2 powr (of_int b - 52)"
proof -
  have "max \<lfloor>log 2 \<bar>x\<bar>\<rfloor> (- 1022) \<le> b"
    using floor_log2_le [OF assms(1,2)] assms(3) by simp
  then show ?thesis by (simp add: quantum_def)
qed

lemma to_double_near:
  assumes "quantum x = q" "x \<noteq> 0" "\<bar>x - of_int n * q\<bar> < q / 2" "\<bar>of_int n * q\<bar> < 2 ^ 1024"
  shows "to_double x = Fin (of_int n * q)"
proof -
  have q: "0 < q" using quantum_pos [of x] assms(1) by simp
  have "\<bar>x / q - of_int n\<bar> = \<bar>x - of_int n * q\<bar> / q"
    using q by (simp add: field_simps abs_if)
  also have "\<dots> < 1 / 2" using assms(3) q by (simp add: field_simps)
  finally have "round_even (x / q) = n" by (rule round_even_near)
  then show ?thesis using assms by (simp add: to_double_def Let_def)
qed

lemma to_double_err:
  assumes "x \<noteq> 0" "\<bar>x\<bar> < 2 powr (of_int b + 1)" "- 1022 \<le> b" "b \<le> 1000"
  shows "\<exists>r. to_double x = Fin r \<and> \<bar>r - x\<bar> \<le> 2 powr (of_int b - 53)"
proof -
  let ?q = "quantum x"
  let ?r = "of_int (round_even (x / ?q)) * ?q"
  have q: "0 < ?q" by (rule quantum_pos)
  have ql: "?q \<le> 2 powr (of_int b - 52)" using assms(1,2,3) by (rule quantum_le)
  have "\<bar>?r - x\<bar> = \<bar>of_int (round_even (x / ?q)) - x / ?q\<bar> * ?q"
    using q by (simp add: field_simps abs_if)
  also have "\<dots> \<le> 1 / 2 * ?q" using round_even_err [of "x / ?q"] q by (intro mult_right_mono) simp_all
  also have "\<dots> \<le> 1 / 2 * 2 powr (of_int b - 52)" using ql by simp
  also have "\<dots> = 2 powr (of_int b - 53)"
    by (simp add: powr_diff)
  finally have e: "\<bar>?r - x\<bar> \<le> 2 powr (of_int b - 53)" .
  have "(2::real) powr (of_int b - 53) \<le> 2 powr (of_int b + 1)" by simp
  then have "\<bar>?r\<bar> < 2 * 2 powr (of_int b + 1)" using e assms(2) by linarith
  also have "\<dots> = 2 powr (of_int (b + 2))" by (simp add: powr_add)
  also have "\<dots> \<le> 2 powr (of_int (1024::int))" using assms(4) by (intro powr_mono) simp_all
  also have "\<dots> = 2 ^ 1024" by (simp add: powr_realpow [symmetric])
  finally have "\<not> 2 ^ 1024 \<le> \<bar>?r\<bar>" by simp
  then have "to_double x = Fin ?r" using assms(1) by (simp add: to_double_def Let_def)
  then show ?thesis using e by blast
qed

lemma to_double_exact:
  assumes "x = of_int m * 2 powr of_int k" "\<bar>m\<bar> < 2 ^ 53" "- 1074 \<le> k" "\<bar>x\<bar> < 2 ^ 1024"
  shows "to_double x = Fin x"
proof (cases "x = 0")
  case True
  then show ?thesis by (simp add: to_double_def)
next
  case False
  let ?e = "max \<lfloor>log 2 \<bar>x\<bar>\<rfloor> (- 1022) - 52"
  have "\<bar>x\<bar> = of_int \<bar>m\<bar> * 2 powr of_int k" by (simp add: assms(1) abs_mult)
  also have "\<dots> < 2 ^ 53 * 2 powr of_int k"
  proof -
    have "(of_int \<bar>m\<bar> :: real) < of_int (2 ^ 53)" using assms(2) by (simp only: of_int_less_iff)
    then show ?thesis by simp
  qed
  also have "\<dots> = 2 powr (of_int (k + 52) + 1)"
    by (simp add: powr_add powr_realpow [symmetric])
  finally have "\<lfloor>log 2 \<bar>x\<bar>\<rfloor> \<le> k + 52" using False by (intro floor_log2_le)
  then have ek: "?e \<le> k" using assms(3) by simp
  define j where "j = nat (k - ?e)"
  have kj: "k = ?e + int j" using ek by (simp add: j_def)
  define q where "q = quantum x"
  have q: "q = 2 powr of_int ?e" by (simp add: q_def quantum_def)
  have qp: "0 < q" by (simp add: q_def quantum_pos)
  have "(2::real) powr of_int k = 2 powr (of_int ?e + real j)"
    by (subst kj) simp
  also have "\<dots> = q * 2 ^ j"
    by (simp only: q powr_add powr_realpow [of 2 j, simplified])
  finally have pk: "(2::real) powr of_int k = q * 2 ^ j" .
  have x: "x = of_int (m * 2 ^ j) * q"
    unfolding assms(1) pk by simp
  have "x / q = of_int (m * 2 ^ j)"
    using qp by (subst x) simp
  then have "round_even (x / q) = m * 2 ^ j" by (simp only: round_even_int)
  then have "of_int (round_even (x / q)) * q = x" using x by simp
  then show ?thesis using False assms(4) by (simp add: to_double_def Let_def q_def)
qed

lemma to_double_int: "\<bar>n\<bar> < 2 ^ 53 \<Longrightarrow> to_double (of_int n) = Fin (of_int n)"
proof -
  assume a: "\<bar>n\<bar> < 2 ^ 53"
  have "\<bar>of_int n :: real\<bar> < of_int (2 ^ 53)"
    using a by (simp only: of_int_abs [symmetric] of_int_less_iff)
  also have "\<dots> \<le> (2::real) ^ 1024" by simp
  finally have b: "\<bar>of_int n :: real\<bar> < 2 ^ 1024" .
  show ?thesis
    by (rule to_double_exact [where m = n and k = 0]) (use a b in simp_all)
qed

lemma to_double_zero [simp]: "to_double 0 = Fin 0"
  by (simp add: to_double_def)

lemma to_double_one [simp]: "to_double 1 = Fin 1"
  using to_double_int [of 1] by simp

lemma to_double_numeral [simp]:
  "numeral n < (9007199254740992::int) \<Longrightarrow> to_double (numeral n) = Fin (numeral n)"
  using to_double_int [of "numeral n"] by simp

lemma to_double_neg_numeral [simp]:
  "numeral n < (9007199254740992::int) \<Longrightarrow> to_double (- numeral n) = Fin (- numeral n)"
  using to_double_int [of "- numeral n"] by simp

text \<open>Three ways to compute a rounding: a number below 2, from 1 up, and a large one.\<close>

lemma two_powr_nat: "(2::real) powr real n = 2 ^ n"
  by (simp add: powr_realpow)

lemma two_powr_neg_nat: "(2::real) powr (- real n) = 1 / 2 ^ n"
  by (simp add: powr_minus two_powr_nat divide_inverse)

lemma to_double_small:
  assumes "1 \<le> \<bar>x\<bar> * 2 ^ k" "\<bar>x\<bar> * 2 ^ k < 2" "k \<le> 1022"
    "\<bar>x * 2 ^ (k + 52) - of_int n\<bar> < 1 / 2"
  shows "to_double x = Fin (of_int n / 2 ^ (k + 52))"
proof -
  have p: "(2::real) powr of_int (- int k) = 1 / 2 ^ k"
    by (simp add: powr_minus powr_realpow divide_inverse)
  have a: "2 powr of_int (- int k) \<le> \<bar>x\<bar>"
    unfolding p using assms(1) by (simp add: field_simps)
  have p1: "(2::real) powr (1 - real k) = 2 / 2 ^ k"
    by (simp add: powr_diff powr_realpow)
  have b: "\<bar>x\<bar> < 2 powr (of_int (- int k) + 1)"
    using assms(2) by (simp add: p1 field_simps)
  have q: "quantum x = 1 / 2 ^ (k + 52)"
  proof -
    have "quantum x = 2 powr (of_int (- int k) - 52)"
      using a b assms(3) by (intro quantum_eval) simp_all
    also have "\<dots> = 2 powr (- real (k + 52))" by simp
    also have "\<dots> = 1 / 2 ^ (k + 52)" by (rule two_powr_neg_nat)
    finally show ?thesis .
  qed
  have x0: "x \<noteq> 0" using assms(1) by auto
  have c: "\<bar>x - of_int n * (1 / 2 ^ (k + 52))\<bar> < (1 / 2 ^ (k + 52)) / 2"
  proof -
    have "\<bar>x - of_int n * (1 / 2 ^ (k + 52))\<bar> = \<bar>x * 2 ^ (k + 52) - of_int n\<bar> / 2 ^ (k + 52)"
      by (simp add: field_simps abs_if)
    also have "\<dots> < (1 / 2) / 2 ^ (k + 52)"
      using assms(4) by (intro divide_strict_right_mono) simp_all
    finally show ?thesis by simp
  qed
  have "\<bar>of_int n\<bar> < \<bar>x * 2 ^ (k + 52)\<bar> + 1 / 2" using assms(4) by linarith
  also have "\<bar>x * 2 ^ (k + 52)\<bar> = (\<bar>x\<bar> * 2 ^ k) * 2 ^ 52"
    by (simp add: abs_mult power_add)
  also have "\<dots> < 2 * 2 ^ 52" using assms(2) by (intro mult_strict_right_mono) simp_all
  finally have n: "\<bar>of_int n :: real\<bar> < 2 ^ 54" by simp
  have "\<bar>of_int n * (1 / 2 ^ (k + 52))\<bar> \<le> \<bar>of_int n :: real\<bar>"
    by (simp add: abs_mult field_simps mult_le_cancel_left1)
  also have "\<dots> < 2 ^ 1024" using n by (rule less_trans) simp
  finally have d: "\<bar>of_int n * (1 / 2 ^ (k + 52))\<bar> < (2::real) ^ 1024" .
  from to_double_near [OF q x0 c d] show ?thesis by simp
qed

lemma to_double_medium:
  assumes "2 ^ k \<le> \<bar>x\<bar>" "\<bar>x\<bar> < 2 * 2 ^ k" "k \<le> 52"
    "\<bar>x * 2 ^ (52 - k) - of_int n\<bar> < 1 / 2"
  shows "to_double x = Fin (of_int n / 2 ^ (52 - k))"
proof -
  have e: "(2::real) powr of_int (int k) = 2 ^ k"
    using two_powr_nat [of k] by (simp only: of_int_of_nat_eq)
  have a: "2 powr of_int (int k) \<le> \<bar>x\<bar>"
    unfolding e using assms(1) .
  have b: "\<bar>x\<bar> < 2 powr (of_int (int k) + 1)"
    unfolding powr_add e using assms(2) by simp
  have q: "quantum x = 1 / 2 ^ (52 - k)"
  proof -
    have "quantum x = 2 powr (of_int (int k) - 52)"
      using a b by (intro quantum_eval) simp_all
    also have "\<dots> = 2 powr (- real (52 - k))" using assms(3) by (simp add: of_nat_diff)
    also have "\<dots> = 1 / 2 ^ (52 - k)" by (rule two_powr_neg_nat)
    finally show ?thesis .
  qed
  have "(0::real) < 2 ^ k" by simp
  with assms(1) have "0 < \<bar>x\<bar>" by linarith
  then have x0: "x \<noteq> 0" by auto
  have c: "\<bar>x - of_int n * (1 / 2 ^ (52 - k))\<bar> < (1 / 2 ^ (52 - k)) / 2"
  proof -
    have "\<bar>x - of_int n * (1 / 2 ^ (52 - k))\<bar> = \<bar>x * 2 ^ (52 - k) - of_int n\<bar> / 2 ^ (52 - k)"
      by (simp add: field_simps abs_if)
    also have "\<dots> < (1 / 2) / 2 ^ (52 - k)"
      using assms(4) by (intro divide_strict_right_mono) simp_all
    finally show ?thesis by simp
  qed
  have "\<bar>of_int n\<bar> < \<bar>x * 2 ^ (52 - k)\<bar> + 1 / 2" using assms(4) by linarith
  also have "\<bar>x * 2 ^ (52 - k)\<bar> = \<bar>x\<bar> * 2 ^ (52 - k)" by (simp add: abs_mult)
  also have "\<dots> < (2 * 2 ^ k) * 2 ^ (52 - k)"
    using assms(2) by (intro mult_strict_right_mono) simp_all
  also have "\<dots> = 2 ^ 53"
    using assms(3) by (simp add: power_add [symmetric])
  finally have n: "\<bar>of_int n :: real\<bar> < 2 ^ 54" by simp
  have "\<bar>of_int n * (1 / 2 ^ (52 - k))\<bar> \<le> \<bar>of_int n :: real\<bar>"
    by (simp add: abs_mult field_simps mult_le_cancel_left1)
  also have "\<dots> < 2 ^ 1024" using n by (rule less_trans) simp
  finally have d: "\<bar>of_int n * (1 / 2 ^ (52 - k))\<bar> < (2::real) ^ 1024" .
  from to_double_near [OF q x0 c d] show ?thesis by simp
qed

lemma to_double_large:
  assumes "2 ^ (k + 52) \<le> \<bar>x\<bar>" "\<bar>x\<bar> < 2 * 2 ^ (k + 52)" "k \<le> 900"
    "\<bar>x - of_int n * 2 ^ k\<bar> < 2 ^ k / 2"
  shows "to_double x = Fin (of_int n * 2 ^ k)"
proof -
  have e: "(2::real) powr of_int (int (k + 52)) = 2 ^ (k + 52)"
    using two_powr_nat [of "k + 52"] by (simp only: of_int_of_nat_eq)
  have a: "2 powr of_int (int (k + 52)) \<le> \<bar>x\<bar>"
    unfolding e using assms(1) .
  have b: "\<bar>x\<bar> < 2 powr (of_int (int (k + 52)) + 1)"
    unfolding powr_add e using assms(2) by simp
  have q: "quantum x = 2 ^ k"
  proof -
    have "quantum x = 2 powr (of_int (int (k + 52)) - 52)"
      using a b by (intro quantum_eval) simp_all
    also have "\<dots> = 2 powr (real k)" by simp
    also have "\<dots> = 2 ^ k" by (simp add: powr_realpow)
    finally show ?thesis .
  qed
  have "(0::real) < 2 ^ (k + 52)" by simp
  with assms(1) have "0 < \<bar>x\<bar>" by linarith
  then have x0: "x \<noteq> 0" by auto
  have "\<bar>of_int n * 2 ^ k\<bar> < \<bar>x\<bar> + 2 ^ k / 2" using assms(4) by linarith
  also have "\<dots> < 2 * 2 ^ (k + 52) + 2 ^ (k + 52)"
    using assms(2) by (intro add_strict_mono) (simp_all add: power_add)
  also have "\<dots> \<le> 4 * (2::real) ^ (k + 52)" by simp
  also have "\<dots> = 2 ^ (k + 54)" by (simp add: power_add)
  also have "\<dots> \<le> (2::real) ^ 1024" using assms(3) by (intro power_increasing) simp_all
  finally have d: "\<bar>of_int n * 2 ^ k\<bar> < (2::real) ^ 1024" .
  from to_double_near [OF q x0 assms(4) d] show ?thesis .
qed

lemma rnd_Fin [simp]: "rnd (Fin a) = to_double a"
  by (simp add: rnd_def)

lemma rnd_infinite [simp]: "rnd PInf = PInf" "rnd NInf = NInf" "rnd NaN = NaN"
  by (simp_all add: rnd_def)

text \<open>The error of a rounding, in general, and overflow.\<close>

lemma quantum_rel: "x \<noteq> 0 \<Longrightarrow> quantum x \<le> \<bar>x\<bar> / 2 ^ 52 + 1 / 2 ^ 1074"
proof -
  assume x: "x \<noteq> 0"
  let ?e = "\<lfloor>log 2 \<bar>x\<bar>\<rfloor>"
  show ?thesis
  proof (cases "- 1022 \<le> ?e")
    case True
    have "of_int ?e \<le> log 2 \<bar>x\<bar>" by simp
    then have "2 powr of_int ?e \<le> \<bar>x\<bar>" using x by (simp add: powr_le_iff)
    moreover have "quantum x = 2 powr of_int ?e / 2 ^ 52"
    proof -
      have m: "max ?e (- 1022) = ?e" using True by simp
      have "quantum x = 2 powr (of_int ?e - 52)" unfolding quantum_def m ..
      also have "\<dots> = 2 powr of_int ?e / 2 powr 52" by (rule powr_diff)
      also have "(2::real) powr 52 = 2 ^ 52" using two_powr_nat [of 52] by simp
      finally show ?thesis .
    qed
    ultimately have "quantum x \<le> \<bar>x\<bar> / 2 ^ 52" by (simp add: divide_right_mono)
    then show ?thesis by (simp add: add_increasing2)
  next
    case False
    then have "quantum x = 2 powr (- 1074)" by (simp add: quantum_def max_def)
    also have "\<dots> = 1 / 2 ^ 1074" using two_powr_neg_nat [of 1074] by simp
    finally show ?thesis by (simp add: add_increasing)
  qed
qed

lemma to_double_cases:
  "to_double x = PInf \<or> to_double x = NInf \<or>
   (\<exists>r. to_double x = Fin r \<and> \<bar>r - x\<bar> \<le> \<bar>x\<bar> / 2 ^ 53 + 1 / 2 ^ 1075)"
proof (cases "x = 0")
  case True
  then show ?thesis by simp
next
  case False
  let ?q = "quantum x"
  let ?r = "of_int (round_even (x / ?q)) * ?q"
  have q: "0 < ?q" by (rule quantum_pos)
  have "\<bar>?r - x\<bar> = \<bar>of_int (round_even (x / ?q)) - x / ?q\<bar> * ?q"
    using q by (simp add: field_simps abs_if)
  also have "\<dots> \<le> 1 / 2 * ?q" using round_even_err [of "x / ?q"] q by (intro mult_right_mono) simp_all
  also have "\<dots> \<le> 1 / 2 * (\<bar>x\<bar> / 2 ^ 52 + 1 / 2 ^ 1074)"
    using quantum_rel [OF False] by simp
  also have "\<dots> = \<bar>x\<bar> / 2 ^ 53 + 1 / 2 ^ 1075" by simp
  finally have e: "\<bar>?r - x\<bar> \<le> \<bar>x\<bar> / 2 ^ 53 + 1 / 2 ^ 1075" .
  show ?thesis
  proof (cases "2 ^ 1024 \<le> \<bar>?r\<bar>")
    case True
    then have "to_double x = inf_of_sign x" using False by (simp add: to_double_def Let_def)
    then show ?thesis using False by (auto simp: inf_of_sign_def)
  next
    case nb: False
    then have "to_double x = Fin ?r" using False by (simp add: to_double_def Let_def)
    then show ?thesis using e by blast
  qed
qed

lemma to_double_finite:
  assumes "\<bar>x\<bar> \<le> 2 ^ 1000"
  shows "\<exists>r. to_double x = Fin r \<and> \<bar>r - x\<bar> \<le> \<bar>x\<bar> / 2 ^ 53 + 1 / 2 ^ 1075"
proof (cases "x = 0")
  case True
  then show ?thesis by simp
next
  case False
  have "\<bar>x\<bar> < 2 powr (of_int 1000 + 1)"
  proof -
    have "(2::real) powr (of_int 1000 + 1) = 2 ^ 1001" using two_powr_nat [of 1001] by simp
    moreover have "(2::real) ^ 1000 < 2 ^ 1001" by simp
    ultimately show ?thesis using assms by linarith
  qed
  from to_double_err [OF False this] obtain r where r: "to_double x = Fin r" by auto
  with to_double_cases [of x] show ?thesis by auto
qed

lemma round_even_ge: "of_int n \<le> x \<Longrightarrow> n \<le> round_even x"
proof -
  assume "of_int n \<le> x"
  moreover have "\<bar>of_int (round_even x) - x\<bar> \<le> 1 / 2" by (rule round_even_err)
  ultimately have "(of_int n :: real) - 1 / 2 \<le> of_int (round_even x)" by linarith
  then have "(of_int n :: real) < of_int (round_even x + 1)" by simp
  then have "n < round_even x + 1" by (simp only: of_int_less_iff)
  then show ?thesis by simp
qed

lemma to_double_overflow:
  assumes "2 ^ 1024 \<le> x"
  shows "to_double x = PInf"
proof -
  have x: "0 < x" "x \<noteq> 0"
  proof -
    have "(0::real) < 2 ^ 1024" by simp
    then show "0 < x" using assms by linarith
    then show "x \<noteq> 0" by simp
  qed
  let ?e = "\<lfloor>log 2 \<bar>x\<bar>\<rfloor>"
  have "2 powr of_int 1024 \<le> \<bar>x\<bar>"
    using assms x two_powr_nat [of 1024] by simp
  then have e: "1024 \<le> ?e" by (rule floor_log2_ge)
  then have m: "max ?e (- 1022) = ?e" by simp
  have q: "quantum x = 2 powr (of_int ?e - 52)" unfolding quantum_def m ..
  have p52: "(2::real) powr (of_int ?e - 52) = 2 powr of_int ?e / 2 ^ 52"
  proof -
    have "(2::real) powr (of_int ?e - 52) = 2 powr of_int ?e / 2 powr 52" by (rule powr_diff)
    also have "(2::real) powr 52 = 2 ^ 52" using two_powr_nat [of 52] by simp
    finally show ?thesis .
  qed
  have "of_int ?e \<le> log 2 \<bar>x\<bar>" by simp
  then have le: "2 powr of_int ?e \<le> x" using x by (simp add: powr_le_iff)
  have "x / quantum x \<ge> 2 powr of_int ?e / quantum x"
    using le quantum_pos [of x] by (simp add: divide_right_mono)
  moreover have "2 powr of_int ?e / quantum x = 2 ^ 52"
    unfolding q p52 by simp
  ultimately have "of_int (2 ^ 52) \<le> x / quantum x" by simp
  then have "2 ^ 52 \<le> round_even (x / quantum x)" by (rule round_even_ge)
  then have "(of_int (2 ^ 52) :: real) \<le> of_int (round_even (x / quantum x))"
    by (simp only: of_int_le_iff)
  then have "2 ^ 52 * quantum x \<le> of_int (round_even (x / quantum x)) * quantum x"
    using quantum_pos [of x] by (intro mult_right_mono) simp_all
  moreover have "2 ^ 52 * quantum x = 2 powr of_int ?e"
    unfolding q p52 by simp
  moreover have "(2::real) powr of_int 1024 \<le> 2 powr of_int ?e"
    using e by (intro powr_mono) simp_all
  ultimately have "2 ^ 1024 \<le> of_int (round_even (x / quantum x)) * quantum x"
    using two_powr_nat [of 1024] by simp
  then have "2 ^ 1024 \<le> \<bar>of_int (round_even (x / quantum x)) * quantum x\<bar>" by linarith
  then show ?thesis using x by (simp add: to_double_def Let_def inf_of_sign_def)
qed

section \<open>Bounds on \<open>\<pi>\<close>\<close>

lemma sin_poly7: "(\<Sum>m<7. sin_coeff m * (x::real) ^ m) = x - x ^ 3 / 6 + x ^ 5 / 120"
proof -
  have s: "{..<7::nat} = {0, 1, 2, 3, 4, 5, 6}" by auto
  have c: "sin_coeff 0 = 0" "sin_coeff (Suc 0) = 1" "sin_coeff 2 = 0" "sin_coeff 3 = - 1 / 6"
    "sin_coeff 4 = 0" "sin_coeff 5 = 1 / 120" "sin_coeff 6 = 0"
    by (simp_all add: sin_coeff_def fact_numeral)
  show ?thesis unfolding s by (simp add: c)
qed

lemma sin_taylor7: "\<bar>sin (x::real) - (x - x ^ 3 / 6 + x ^ 5 / 120)\<bar> \<le> \<bar>x\<bar> ^ 7 / 5040"
  using Maclaurin_sin_bound [of x 7] by (simp add: sin_poly7 fact_numeral inverse_eq_divide)

lemma pi_upper: "pi < 3.142"
proof (rule ccontr)
  assume "\<not> pi < 3.142"
  then have p: "3142 / 6000 \<le> pi / 6" by simp
  have "sin (3142 / 6000 :: real) \<le> sin (pi / 6)"
    using p pi_gt_zero by (intro sin_monotone_2pi_le) simp_all
  then have "sin (3142 / 6000 :: real) \<le> 1 / 2" unfolding sin_30 .
  moreover have "1 / 2 < (3142 / 6000 :: real) - (3142 / 6000) ^ 3 / 6 + (3142 / 6000) ^ 5 / 120
                   - \<bar>3142 / 6000\<bar> ^ 7 / 5040"
    by (simp add: power_divide)
  ultimately show False using sin_taylor7 [of "3142 / 6000"] by (simp only: abs_le_iff) linarith
qed

lemma pi_lower: "3.141 < pi"
proof (rule ccontr)
  assume "\<not> 3.141 < pi"
  then have p: "pi / 6 \<le> 3141 / 6000" by simp
  have "3141 / 6000 \<le> pi / 2" using pi_ge_two by simp
  then have "sin (pi / 6) \<le> sin (3141 / 6000 :: real)"
    using p pi_gt_zero by (intro sin_monotone_2pi_le) simp_all
  then have "1 / 2 \<le> sin (3141 / 6000 :: real)" unfolding sin_30 .
  moreover have "(3141 / 6000 :: real) - (3141 / 6000) ^ 3 / 6 + (3141 / 6000) ^ 5 / 120
                   + \<bar>3141 / 6000\<bar> ^ 7 / 5040 < 1 / 2"
    by (simp add: power_divide)
  ultimately show False using sin_taylor7 [of "3141 / 6000"] by (simp only: abs_le_iff) linarith
qed

section \<open>Point in polygon: rotation and reversal\<close>

lemma isPointInPolygon_loop_count:
  "i \<le> length polygon \<Longrightarrow> j = (i + length polygon - 1) mod length polygon \<Longrightarrow>
   isPointInPolygon_loop pt polygon i j inside =
     (inside \<noteq> odd (card {k. i \<le> k \<and> k < length polygon \<and> crossing pt polygon k}))"
proof (induction pt polygon i j inside rule: isPointInPolygon_loop.induct)
  case (1 pt polygon i j inside)
  let ?n = "length polygon"
  let ?S = "\<lambda>i. {k. i \<le> k \<and> k < ?n \<and> crossing pt polygon k}"
  show ?case
  proof (cases "i < ?n")
    case False
    then have e: "?S i = {}" by auto
    show ?thesis
      apply (subst isPointInPolygon_loop.simps)
      apply (simp only: e False if_False)
      by simp
  next
    case True
    have j: "i = (i + 1 + ?n - 1) mod ?n" using True by simp
    have fin: "finite (?S (i + 1))" by simp
    have split: "?S i = (if crossing pt polygon i then insert i (?S (i + 1)) else ?S (i + 1))"
      using True by (auto simp: less_Suc_eq_le Suc_le_eq intro: le_neq_implies_less)
    have notin: "i \<notin> ?S (i + 1)" by simp
    have cr: "edge_intersect pt (polygon ! i) (polygon ! j) = crossing pt polygon i"
      using 1(3) by (simp add: crossing_def)
    define inside' where "inside' = (if crossing pt polygon i then \<not> inside else inside)"
    have "isPointInPolygon_loop pt polygon i j inside =
          isPointInPolygon_loop pt polygon (i + 1) i inside'"
      by (subst isPointInPolygon_loop.simps) (simp only: True if_True cr inside'_def)
    also have "\<dots> = (inside' \<noteq> odd (card (?S (i + 1))))"
      using "1.IH" [OF True _ j] True by (simp only: cr inside'_def)
    also have "\<dots> = (inside \<noteq> odd (card (?S i)))"
      using fin notin by (auto simp add: split inside'_def)
    finally show ?thesis .
  qed
qed

lemma isPointInPolygon_count:
  "isPointInPolygon pt polygon = odd (card {k. k < length polygon \<and> crossing pt polygon k})"
  using isPointInPolygon_loop_count [of 0 polygon "length polygon - 1" pt False]
  by (cases "polygon = []") (simp_all add: isPointInPolygon_def del: isPointInPolygon_loop.simps)


lemma crossing_rotate:
  assumes "k < length polygon"
  shows "crossing pt (rotate m polygon) k = crossing pt polygon ((m + k) mod length polygon)"
proof -
  let ?n = "length polygon"
  have n: "0 < ?n" using assms by (cases polygon) simp_all
  have a: "(m + (k + ?n - 1) mod ?n) mod ?n = ((m + k) mod ?n + ?n - 1) mod ?n"
  proof -
    have "(m + (k + ?n - 1) mod ?n) mod ?n = (m + (k + ?n - 1)) mod ?n"
      by (simp add: mod_simps)
    also have "m + (k + ?n - 1) = (m + k) + (?n - 1)" using n by arith
    also have "((m + k) + (?n - 1)) mod ?n = ((m + k) mod ?n + (?n - 1)) mod ?n"
      by (simp add: mod_simps)
    also have "(m + k) mod ?n + (?n - 1) = (m + k) mod ?n + ?n - 1" using n by arith
    finally show ?thesis .
  qed
  have r1: "rotate m polygon ! k = polygon ! ((m + k) mod ?n)"
    using assms by (rule nth_rotate)
  have r2: "rotate m polygon ! ((k + ?n - 1) mod ?n) = polygon ! ((m + (k + ?n - 1) mod ?n) mod ?n)"
    using n by (intro nth_rotate) simp
  show ?thesis
    unfolding crossing_def length_rotate r1 r2 a ..
qed

lemma card_crossing_rotate:
  "card {k. k < length polygon \<and> crossing pt (rotate m polygon) k} =
   card {k. k < length polygon \<and> crossing pt polygon k}"
proof (cases "polygon = []")
  case True then show ?thesis by simp
next
  case False
  let ?n = "length polygon"
  have n: "0 < ?n" using False by simp
  let ?f = "\<lambda>k. (m + k) mod ?n"
  let ?g = "\<lambda>k. (k + (?n - m mod ?n)) mod ?n"
  have z: "(m + (?n - m mod ?n)) mod ?n = 0"
  proof -
    have "(m + (?n - m mod ?n)) mod ?n = (m mod ?n + (?n - m mod ?n)) mod ?n"
      by (rule mod_add_left_eq [symmetric])
    also have "m mod ?n + (?n - m mod ?n) = ?n" using n by (simp add: less_imp_le)
    finally show ?thesis by simp
  qed
  have shift: "(k + (m + (?n - m mod ?n))) mod ?n = k" if "k < ?n" for k
  proof -
    have "(k + (m + (?n - m mod ?n))) mod ?n = (k + (m + (?n - m mod ?n)) mod ?n) mod ?n"
      by (rule mod_add_right_eq [symmetric])
    then show ?thesis using that z by simp
  qed
  have gf: "?g (?f k) = k" if "k < ?n" for k
  proof -
    have "?g (?f k) = (m + k + (?n - m mod ?n)) mod ?n" by (simp add: mod_simps)
    also have "\<dots> = (k + (m + (?n - m mod ?n))) mod ?n" by (simp add: ac_simps)
    finally show ?thesis using shift [OF that] by simp
  qed
  have fg: "?f (?g k) = k" if "k < ?n" for k
  proof -
    have "?f (?g k) = (m + (k + (?n - m mod ?n))) mod ?n" by (simp add: mod_simps)
    also have "\<dots> = (k + (m + (?n - m mod ?n))) mod ?n" by (simp add: ac_simps)
    finally show ?thesis using shift [OF that] by simp
  qed
  show ?thesis
  proof (rule bij_betw_same_card [where f = ?f], rule bij_betw_byWitness [where f' = ?g])
    show "\<forall>a\<in>{k. k < ?n \<and> crossing pt (rotate m polygon) k}. ?g (?f a) = a"
      using gf by simp
    show "\<forall>a'\<in>{k. k < ?n \<and> crossing pt polygon k}. ?f (?g a') = a'"
      using fg by simp
    show "?f ` {k. k < ?n \<and> crossing pt (rotate m polygon) k} \<subseteq> {k. k < ?n \<and> crossing pt polygon k}"
      using n by (auto simp: crossing_rotate)
    show "?g ` {k. k < ?n \<and> crossing pt polygon k} \<subseteq> {k. k < ?n \<and> crossing pt (rotate m polygon) k}"
      using n fg by (auto simp: crossing_rotate)
  qed
qed

lemma isPointInPolygon_rotate_all:
  "isPointInPolygon pt (rotate m polygon) = isPointInPolygon pt polygon"
  using card_crossing_rotate [of polygon pt m]
  by (simp add: isPointInPolygon_count)

text \<open>
  Claim C7, as amended: the result of \<open>isPointInPolygon\<close> is the same on every cyclic rotation
  of the polygon, whatever the coordinates.  (The loop visits the same pairs of neighbouring
  vertices, each in the same direction, so every intercept is computed from the same operands.)
\<close>

theorem isPointInPolygon_rotate:
  "isPointInPolygon pt (rotate m polygon) = isPointInPolygon pt polygon"
  using card_crossing_rotate [of polygon pt m]
  by (simp add: isPointInPolygon_count)

text \<open>
  Claim C7 as stated fails for the reversal.  The reversed polygon presents every edge in the
  other direction, and the rounded intercept depends on the direction.  The point is
  \<open>(1/3, 1)\<close>, its abscissa being the double nearest to 1/3, and the triangle is
  \<open>(0, 0)\<close>, \<open>(1, 3)\<close>, \<open>(-5, 3)\<close>: the edge from \<open>(1, 3)\<close> to \<open>(0, 0)\<close> passes through the
  point; computed from \<open>(1, 3)\<close> the intercept is one unit in the last place above the abscissa
  of the point, computed from \<open>(0, 0)\<close> it is equal to it.
\<close>

theorem isPointInPolygon_rev_counterexample:
  "to_double (1 / 3) = Fin (6004799503160661 / 18014398509481984) \<and>
   isPointInPolygon \<lparr>px = Fin (6004799503160661 / 18014398509481984), py = Fin 1\<rparr>
     [fpoint 0 0, fpoint 1 3, fpoint (- 5) 3] \<and>
   \<not> isPointInPolygon \<lparr>px = Fin (6004799503160661 / 18014398509481984), py = Fin 1\<rparr>
     (rev [fpoint 0 0, fpoint 1 3, fpoint (- 5) 3])"
proof -
  let ?p = "\<lparr>px = Fin (6004799503160661 / 18014398509481984), py = Fin 1\<rparr>"
  have m1: "to_double (- 1) = Fin (- 1)" using to_double_int [of "- 1"] by simp
  have t1: "to_double (1 / 3) = Fin (6004799503160661 / 18014398509481984)"
    using to_double_small [of "1 / 3" 2 6004799503160661] by simp
  have t2: "to_double (- (2 / 3)) = Fin (- (6004799503160661 / 9007199254740992))"
    using to_double_small [of "- (2 / 3)" 1 "- 6004799503160661"] by simp
  have t3: "to_double (10 / 3) = Fin (7505999378950827 / 2251799813685248)"
    using to_double_medium [of 1 "10 / 3" 7505999378950827] by simp
  have t4: "to_double (- (5 / 3)) = Fin (- (7505999378950827 / 4503599627370496))"
    using to_double_medium [of 0 "- (5 / 3)" "- 7505999378950827"] by simp
  have t5: "to_double (3002399751580331 / 9007199254740992)
            = Fin (3002399751580331 / 9007199254740992)"
    using to_double_small [of "3002399751580331 / 9007199254740992" 2 6004799503160662] by simp
  have t6: "to_double (- (3752999689475413 / 2251799813685248))
            = Fin (- (3752999689475413 / 2251799813685248))"
    using to_double_medium [of 0 "- (3752999689475413 / 2251799813685248)" "- 7505999378950826"]
    by simp
  have t7: "to_double (- (7505999378950827 / 4503599627370496))
            = Fin (- (7505999378950827 / 4503599627370496))"
    using to_double_medium [of 0 "- (7505999378950827 / 4503599627370496)" "- 7505999378950827"]
    by simp
  have t8: "to_double (6004799503160661 / 18014398509481984)
            = Fin (6004799503160661 / 18014398509481984)"
    using to_double_small [of "6004799503160661 / 18014398509481984" 2 6004799503160661] by simp
  have a: "isPointInPolygon ?p [fpoint 0 0, fpoint 1 3, fpoint (- 5) 3]"
    by (simp add: isPointInPolygon_def edge_intersect_def fpoint_def minus_jsnum_def
        m1 t1 t2 t3 t4 t5 t6 t7 t8)
  have b: "\<not> isPointInPolygon ?p (rev [fpoint 0 0, fpoint 1 3, fpoint (- 5) 3])"
    by (simp add: isPointInPolygon_def edge_intersect_def fpoint_def minus_jsnum_def
        m1 t1 t2 t3 t4 t5 t6 t7 t8)
  show ?thesis by (intro conjI t1 a b)
qed

section \<open>The seed territory of a new player\<close>


















section \<open>The heading after a steering update\<close>

lemma atan2_range: "- pi < atan2 s c \<and> atan2 s c \<le> pi"
proof -
  have lo: "- (pi / 2) < arctan (s / c)" and hi: "arctan (s / c) < pi / 2"
    by (rule arctan_lbound, rule arctan_ubound)
  have neg: "arctan (s / c) \<le> 0" if "c < 0" "0 \<le> s"
  proof -
    have "s / c \<le> 0" using that by (simp add: divide_nonneg_neg)
    then have "arctan (s / c) \<le> arctan 0" by (simp only: arctan_le_iff)
    then show ?thesis by simp
  qed
  have pos: "0 < arctan (s / c)" if "c < 0" "s < 0"
  proof -
    have "0 < s / c" using that by (simp add: divide_neg_neg)
    then have "arctan 0 < arctan (s / c)" by (simp only: arctan_less_iff)
    then show ?thesis by simp
  qed
  show ?thesis
    using lo hi neg pos pi_gt_zero by (auto simp: atan2_def)
qed

text \<open>On numbers below 2 to the power 51 a rounding moves the result by at most 1/8.\<close>

lemma to_double_eighth:
  assumes "\<bar>y\<bar> < 2 ^ 51"
  shows "\<exists>r. to_double y = Fin r \<and> \<bar>r - y\<bar> \<le> 1 / 8"
proof (cases "y = 0")
  case True
  then show ?thesis by simp
next
  case False
  have e: "(2::real) powr (of_int 50 + 1) = 2 ^ 51"
    using two_powr_nat [of 51] by simp
  have "\<bar>y\<bar> < 2 powr (of_int 50 + 1)" unfolding e using assms .
  from to_double_err [OF False this] obtain r where
    r: "to_double y = Fin r" "\<bar>r - y\<bar> \<le> 2 powr (of_int 50 - 53)" by auto
  have "(2::real) powr (of_int 50 - 53) = 1 / 8"
    using two_powr_neg_nat [of 3] by simp
  then show ?thesis using r by auto
qed

lemma two_pi_bounds: "6 + 1 / 8 < 2 * pi" "2 * pi < 8"
  using pi_lower pi_less_4 by simp_all

lemma normalize_up_returns:
  "- pi - x < 6 * real n \<Longrightarrow> - (2 ^ 50) \<le> x \<Longrightarrow>
   \<exists>d. normalize_up (Fin x) = Some (Fin d) \<and> - pi < d \<and> (d = x \<or> d \<le> pi + 1 / 8)"
proof (induction n arbitrary: x)
  case 0
  then have "\<not> x \<le> - pi" by simp
  then have "normalize_up (Fin x) = Some (Fin x)"
    by (subst normalize_up.simps) (simp add: Math_PI_def)
  then show ?case using 0 by simp
next
  case (Suc n)
  show ?case
  proof (cases "x \<le> - pi")
    case False
    then have "normalize_up (Fin x) = Some (Fin x)"
      by (subst normalize_up.simps) (simp add: Math_PI_def)
    then show ?thesis using False by simp
  next
    case True
    have y: "\<bar>x + 2 * pi\<bar> < 2 ^ 51"
      using True Suc.prems(2) two_pi_bounds by (simp add: abs_less_iff)
    from to_double_eighth [OF y] obtain r where
      r: "to_double (x + 2 * pi) = Fin r" "\<bar>r - (x + 2 * pi)\<bar> \<le> 1 / 8" by blast
    have r1: "to_double (x + pi * 2) = Fin r" using r(1) by (simp add: mult.commute)
    have step: "normalize_up (Fin x) = normalize_up (Fin r)"
      using True by (subst normalize_up.simps) (simp add: Math_PI_def r1)
    have lo: "x + 6 \<le> r" and hi: "r \<le> pi + 1 / 8"
      using r(2) two_pi_bounds True unfolding abs_le_iff by linarith+
    have "- pi - r < 6 * real n" using Suc.prems(1) lo by simp
    moreover have "- (2 ^ 50) \<le> r" using Suc.prems(2) lo by simp
    ultimately obtain d where
      d: "normalize_up (Fin r) = Some (Fin d)" "- pi < d" "d = r \<or> d \<le> pi + 1 / 8"
      using Suc.IH by blast
    have "d \<le> pi + 1 / 8" using d(3) hi by auto
    then show ?thesis using d(1,2) step by simp
  qed
qed

lemma normalize_down_returns:
  "x - pi < 6 * real n \<Longrightarrow> - pi - 1 / 8 < x \<Longrightarrow> x \<le> 2 ^ 50 \<Longrightarrow>
   \<exists>d. normalize_down (Fin x) = Some (Fin d) \<and> - pi - 1 / 8 < d \<and> d \<le> pi"
proof (induction n arbitrary: x)
  case 0
  then have "\<not> pi < x" by simp
  then have "normalize_down (Fin x) = Some (Fin x)"
    by (subst normalize_down.simps) (simp add: Math_PI_def)
  then show ?case using 0 by simp
next
  case (Suc n)
  show ?case
  proof (cases "pi < x")
    case False
    then have "normalize_down (Fin x) = Some (Fin x)"
      by (subst normalize_down.simps) (simp add: Math_PI_def)
    then show ?thesis using False Suc.prems(2) by simp
  next
    case True
    have y: "\<bar>x - 2 * pi\<bar> < 2 ^ 51"
      using True Suc.prems(3) two_pi_bounds by (simp add: abs_less_iff)
    from to_double_eighth [OF y] obtain r where
      r: "to_double (x - 2 * pi) = Fin r" "\<bar>r - (x - 2 * pi)\<bar> \<le> 1 / 8" by blast
    have r1: "to_double (x - pi * 2) = Fin r" using r(1) by (simp add: mult.commute)
    have step: "normalize_down (Fin x) = normalize_down (Fin r)"
      using True
      by (subst normalize_down.simps) (simp add: Math_PI_def minus_jsnum_def r1)
    have lo: "- pi - 1 / 8 < r" and hi: "r \<le> x - 6"
      using r(2) two_pi_bounds True unfolding abs_le_iff by linarith+
    have "r - pi < 6 * real n" using Suc.prems(1) hi by simp
    moreover have "r \<le> 2 ^ 50" using Suc.prems(3) hi by simp
    ultimately show ?thesis
      using Suc.IH [of r] lo step by simp
  qed
qed

lemma normalize_diff_returns:
  assumes "\<bar>x\<bar> \<le> 2 ^ 50"
  shows "\<exists>d. normalize_diff (Fin x) = Some (Fin d) \<and> - pi - 1 / 8 < d \<and> d \<le> pi"
proof -
  obtain n :: nat where n: "(- pi - x) / 6 < real n"
    using reals_Archimedean2 by blast
  then have "- pi - x < 6 * real n" by (simp add: field_simps)
  moreover have "- (2 ^ 50) \<le> x" using assms by (simp add: abs_le_iff)
  ultimately obtain d1 where
    d1: "normalize_up (Fin x) = Some (Fin d1)" "- pi < d1" "d1 = x \<or> d1 \<le> pi + 1 / 8"
    using normalize_up_returns by blast
  have u: "d1 \<le> 2 ^ 50"
  proof -
    have "pi + 1 / 8 \<le> 2 ^ 50" using pi_less_4 by simp
    then show ?thesis using d1(3) assms by (auto simp: abs_le_iff)
  qed
  obtain m :: nat where m: "(d1 - pi) / 6 < real m"
    using reals_Archimedean2 by blast
  then have "d1 - pi < 6 * real m" by (simp add: field_simps)
  moreover have "- pi - 1 / 8 < d1" using d1(2) by simp
  ultimately obtain d where
    "normalize_down (Fin d1) = Some (Fin d)" "- pi - 1 / 8 < d" "d \<le> pi"
    using normalize_down_returns u by blast
  then show ?thesis using d1(1) by (auto simp: normalize_diff_def)
qed

text \<open>
  A difference of 1e17: the doubles around it are 16 apart, \<open>2\<pi>\<close> is less than half of
  that, the subtraction gives 1e17 again, and the second loop does not end.
\<close>

lemma absorbed: "rnd (Fin 100000000000000000 - Math_PI * Fin 2) = Fin 100000000000000000"
proof -
  have "to_double (100000000000000000 - 2 * pi) = Fin (of_int 6250000000000000 * 2 ^ 4)"
    using two_pi_bounds by (intro to_double_large) (simp_all add: abs_less_iff)
  then show ?thesis by (simp add: Math_PI_def minus_jsnum_def mult.commute)
qed

lemma normalize_down_diverges: "normalize_down (Fin 100000000000000000) = None"
proof -
  have n: "u \<noteq> Fin 100000000000000000" if a: "normalize_down u = Some y" for u y
  proof (rule normalize_down.raw_induct [where P = "\<lambda>u y. u \<noteq> Fin 100000000000000000", OF _ a])
    fix f x z
    assume ih: "\<And>x y. f x = Some y \<Longrightarrow> x \<noteq> Fin 100000000000000000"
      and st: "(if Math_PI < x then f (rnd (x - Math_PI * Fin 2)) else Some x) = Some z"
    show "x \<noteq> Fin 100000000000000000"
    proof
      assume x: "x = Fin 100000000000000000"
      have "Math_PI < x" using pi_less_4 by (simp add: x Math_PI_def)
      then have "f (rnd (x - Math_PI * Fin 2)) = Some z" using st by simp
      then have "f (Fin 100000000000000000) = Some z" unfolding x absorbed .
      from ih [OF this] show False by simp
    qed
  qed
  show ?thesis
  proof (cases "normalize_down (Fin 100000000000000000)")
    case None
    then show ?thesis .
  next
    case (Some y)
    from n [OF Some] show ?thesis by simp
  qed
qed

lemma atan2_sin_cos_3: "atan2 (sin 3) (cos 3) = 3"
proof -
  have r: "- (pi / 2) < 3 - pi" "3 - pi < pi / 2"
    using pi_lower pi_less_4 by simp_all
  have c0: "0 < cos (3 - pi)" using r by (rule cos_gt_zero_pi)
  have c1: "cos (3 - pi + pi) = - cos (3 - pi)" by (rule cos_periodic_pi)
  have e: "3 - pi + pi = (3::real)" by simp
  have c: "cos (3::real) < 0" using c0 c1 unfolding e by linarith
  have "(0::real) \<le> 3" "(3::real) \<le> pi" using pi_lower by simp_all
  then have s: "0 \<le> sin (3::real)" by (rule sin_ge_zero)
  have t1: "tan (3 - pi + pi) = tan (3 - pi)" by (rule tan_periodic_pi)
  have "sin 3 / cos 3 = tan (3::real)" by (simp add: tan_def)
  also have "\<dots> = tan (3 - pi)" using t1 unfolding e .
  finally have "arctan (sin 3 / cos 3) = arctan (tan (3 - pi))" by simp
  also have "\<dots> = 3 - pi" using r by (rule arctan_tan)
  finally show ?thesis using c s by (simp add: atan2_def)
qed

lemma rounded_bound:
  fixes r x :: real
  assumes "\<bar>r - x\<bar> \<le> \<bar>x\<bar> / 2 ^ 53 + 1 / 2 ^ 1075"
  shows "\<bar>r\<bar> \<le> \<bar>x\<bar> * 1.001 + 0.001"
proof -
  have "\<bar>x\<bar> * (1 / 2 ^ 53) \<le> \<bar>x\<bar> * (1 / 1000)"
    by (intro mult_left_mono) simp_all
  then have a: "\<bar>x\<bar> / 2 ^ 53 \<le> \<bar>x\<bar> / 1000" by simp
  have b: "(1::real) / 2 ^ 1075 \<le> 1 / 1000" by simp
  have "\<bar>r\<bar> \<le> \<bar>x\<bar> + \<bar>r - x\<bar>" by linarith
  then have "\<bar>r\<bar> \<le> \<bar>x\<bar> + \<bar>x\<bar> / 1000 + 1 / 1000" using assms a b by linarith
  then show ?thesis by simp
qed

lemma to_double_1e17: "to_double 100000000000000000 = Fin 100000000000000000"
  using two_powr_nat [of 17]
  by (intro to_double_exact [where m = 762939453125 and k = 17]) simp_all

lemma to_double_3_16: "to_double (3 / 16) = Fin (3 / 16)"
  using two_powr_neg_nat [of 4]
  by (intro to_double_exact [where m = 3 and k = "- 4"]) simp_all

lemma to_double_51_16: "to_double (51 / 16) = Fin (51 / 16)"
  using two_powr_neg_nat [of 4]
  by (intro to_double_exact [where m = 51 and k = "- 4"]) simp_all

lemma to_double_12e308: "to_double (12 * 10 ^ 308) = PInf"
  by (rule to_double_overflow) simp

text \<open>
  Claim C8, as amended: for a finite heading, a target angle of absolute value at most 1e15
  and \<open>dt > 0\<close>, the steering update returns, and the heading that it leaves is infinite or of
  absolute value below \<open>3.2 + 40 \<cdot> dt\<close>.  (The heading is brought into \<open>(-\<pi>, \<pi>]\<close> before the turn
  is added, not after; the turn is \<open>12 \<cdot> dt\<close> times a difference that the loops leave between
  \<open>-\<pi> - 1/8\<close> and \<open>\<pi>\<close>, with every operation rounded, and it overflows when \<open>dt\<close> is large
  enough.)
\<close>

theorem updatePlayerMovement_angle:
  assumes "angle p = Fin a" "targetAngle p = Fin t" "\<bar>t\<bar> \<le> 10 ^ 15" "dt = Fin h" "0 < h"
  shows "\<exists>p'. updatePlayerMovement p dt = Some p' \<and>
           (angle p' = PInf \<or> angle p' = NInf \<or>
            (\<exists>r. angle p' = Fin r \<and> \<bar>r\<bar> < 3.2 + 40 * h))"
proof -
  define a0 where "a0 = atan2 (sin a) (cos a)"
  have r: "- pi < a0" "a0 \<le> pi" using atan2_range [of "sin a" "cos a"] by (simp_all add: a0_def)
  have x0: "\<bar>t - a0\<bar> \<le> 10 ^ 15 + 4"
    using assms(3) r pi_less_4 by (simp add: abs_le_iff)
  then have "\<bar>t - a0\<bar> < 2 ^ 51" by simp
  from to_double_eighth [OF this] obtain x1 where
    x1: "to_double (t - a0) = Fin x1" "\<bar>x1 - (t - a0)\<bar> \<le> 1 / 8" by blast
  have "\<bar>x1\<bar> \<le> 10 ^ 15 + 4 + 1 / 8" using x0 x1(2) by linarith
  also have "\<dots> \<le> (2::real) ^ 50" by simp
  finally obtain d where d: "normalize_diff (Fin x1) = Some (Fin d)"
      "- pi - 1 / 8 < d" "d \<le> pi"
    using normalize_diff_returns by blast
  define y1 where "y1 = d * 12"
  have y1: "\<bar>y1\<bar> < 39.21" using d(2,3) pi_upper by (simp add: y1_def abs_less_iff)
  then have "\<bar>y1\<bar> \<le> 2 ^ 1000" by simp
  from to_double_finite [OF this] obtain u1 where
    u1: "to_double y1 = Fin u1" "\<bar>u1 - y1\<bar> \<le> \<bar>y1\<bar> / 2 ^ 53 + 1 / 2 ^ 1075" by blast
  have "\<bar>u1\<bar> \<le> \<bar>y1\<bar> * 1.001 + 0.001" using u1(2) by (rule rounded_bound)
  then have u1b: "\<bar>u1\<bar> \<le> 39.3" using y1 by simp
  have "\<bar>u1\<bar> * h \<le> 39.3 * h" using u1b assms(5) by (intro mult_right_mono) simp_all
  then have uh: "\<bar>u1 * h\<bar> \<le> 39.3 * h" using assms(5) by (simp add: abs_mult)
  have m: "\<exists>p'. updatePlayerMovement p dt = Some p' \<and>
             angle p' = rnd (Fin a0 + to_double (u1 * h))"
    using assms(1,2,4) d(1) x1(1) u1(1)
    by (simp add: updatePlayerMovement_def Let_def a0_def [symmetric] minus_jsnum_def
        PLAYER_TURN_SPEED_def y1_def [symmetric])
  have "rnd (Fin a0 + to_double (u1 * h)) = PInf \<or> rnd (Fin a0 + to_double (u1 * h)) = NInf \<or>
        (\<exists>r. rnd (Fin a0 + to_double (u1 * h)) = Fin r \<and> \<bar>r\<bar> < 3.2 + 40 * h)"
  proof -
    from to_double_cases [of "u1 * h"] consider
      "to_double (u1 * h) = PInf" | "to_double (u1 * h) = NInf" |
      u2 where "to_double (u1 * h) = Fin u2"
        "\<bar>u2 - u1 * h\<bar> \<le> \<bar>u1 * h\<bar> / 2 ^ 53 + 1 / 2 ^ 1075"
      by blast
    then show ?thesis
    proof cases
      case 1
      then show ?thesis by simp
    next
      case 2
      then show ?thesis by simp
    next
      case 3
      have "\<bar>u2\<bar> \<le> \<bar>u1 * h\<bar> * 1.001 + 0.001" using 3(2) by (rule rounded_bound)
      then have u2b: "\<bar>u2\<bar> \<le> 39.3393 * h + 0.001" using uh by simp
      have zb: "\<bar>a0 + u2\<bar> \<le> 3.143 + 39.3393 * h"
        using r pi_upper u2b by (simp add: abs_le_iff)
      from to_double_cases [of "a0 + u2"] consider
        "to_double (a0 + u2) = PInf" | "to_double (a0 + u2) = NInf" |
        z where "to_double (a0 + u2) = Fin z"
          "\<bar>z - (a0 + u2)\<bar> \<le> \<bar>a0 + u2\<bar> / 2 ^ 53 + 1 / 2 ^ 1075"
        by blast
      then show ?thesis
      proof cases
        case 1
        then show ?thesis using 3(1) by simp
      next
        case 2
        then show ?thesis using 3(1) by simp
      next
        case z: 3
        have "\<bar>z\<bar> \<le> \<bar>a0 + u2\<bar> * 1.001 + 0.001" using z(2) by (rule rounded_bound)
        then have "\<bar>z\<bar> < 3.2 + 40 * h" using zb assms(5) by simp
        then show ?thesis using 3(1) z(1) by simp
      qed
    qed
  qed
  then show ?thesis using m by auto
qed

theorem updatePlayerMovement_angle_witness:
  "angle p_turn = Fin 3 \<and> targetAngle p_turn = Fin 4 \<and> \<bar>4 :: real\<bar> \<le> 10 ^ 15 \<and>
   (0::real) < 1 / 64 \<and>
   (\<exists>p'. updatePlayerMovement p_turn (Fin (1 / 64)) = Some p' \<and>
         (angle p' = PInf \<or> angle p' = NInf \<or>
          (\<exists>r. angle p' = Fin r \<and> \<bar>r\<bar> < 3.2 + 40 * (1 / 64))))"
proof -
  have h: "angle p_turn = Fin 3" "targetAngle p_turn = Fin 4" "\<bar>4 :: real\<bar> \<le> 10 ^ 15"
    "(0::real) < 1 / 64"
    by (simp_all add: p_turn_def)
  show ?thesis
    using updatePlayerMovement_angle [OF h(1,2,3) refl h(4)] h by blast
qed

text \<open>
  Claim C8 as stated fails in three ways.  The heading is normalised before the turn is
  applied, not after: a player heading 3 that steers to 4 ends the physics update of a tick of
  1/64 s with the heading 3.1875, above \<open>\<pi>\<close>.  A target angle of 1e17 makes the second loop
  run for ever, so that the update of the game state does not return.  And with a time step
  of 1e308 the turn overflows and the heading is infinite.
\<close>

theorem angle_range_counterexample:
  "map_option (map (\<lambda>(ident, q). angle q \<le> Math_PI)) (GameState_update (Fin (1 / 64)) [(''p'', p_turn)])
     = Some [False] \<and>
   \<not> isDead p_spin \<and> targetAngle p_spin = Fin 100000000000000000 \<and>
   GameState_update (Fin (1 / 64)) [(''p'', p_spin)] = None \<and>
   map_option (map (\<lambda>(ident, q). angle q)) (GameState_update (Fin (10 ^ 308)) [(''p'', p_turn)])
     = Some [PInf]"
proof -
  have np: "\<not> 1 \<le> - pi" "\<not> pi \<le> - 1" "\<not> pi < 1" using pi_lower by simp_all
  have up: "normalize_up (Fin 1) = Some (Fin 1)"
    by (subst normalize_up.simps) (simp add: Math_PI_def np)
  have down: "normalize_down (Fin 1) = Some (Fin 1)"
    by (subst normalize_down.simps) (simp add: Math_PI_def np)
  have m: "updatePlayerMovement p_turn (Fin (1 / 64))
         = Some (p_turn\<lparr>angle := Fin (51 / 16), prevX := Some (Fin 2500), prevY := Some (Fin 2500)\<rparr>)"
    by (simp add: updatePlayerMovement_def p_turn_def Let_def atan2_sin_cos_3 minus_jsnum_def
        normalize_diff_def up down PLAYER_TURN_SPEED_def WORLD_WIDTH_def WORLD_HEIGHT_def
        to_double_3_16 to_double_51_16)
  have "\<not> 51 / 16 \<le> pi" using pi_upper by simp
  then have a: "map_option (map (\<lambda>(ident, q). angle q \<le> Math_PI))
      (GameState_update (Fin (1 / 64)) [(''p'', p_turn)]) = Some [False]"
    by (simp add: update_player_def m Let_def updatePlayerTrail_def Math_PI_def)
       (simp add: p_turn_def)
  have f: "\<not> isDead p_spin" "targetAngle p_spin = Fin 100000000000000000"
    "\<not> Fin 0 < invulnerableTimer p_spin"
    by (simp_all add: p_spin_def p_turn_def)
  have a0: "atan2 0 1 = 0" by (simp add: atan2_def)
  have nq: "\<not> 100000000000000000 \<le> - pi" using pi_lower by simp
  have up2: "normalize_up (Fin 100000000000000000) = Some (Fin 100000000000000000)"
    by (subst normalize_up.simps) (simp add: Math_PI_def nq)
  have "updatePlayerMovement p_spin (Fin (1 / 64)) = None"
    by (simp add: updatePlayerMovement_def p_spin_def p_turn_def Let_def a0 minus_jsnum_def
        normalize_diff_def up2 normalize_down_diverges to_double_1e17)
  then have b: "GameState_update (Fin (1 / 64)) [(''p'', p_spin)] = None"
    using f(1,3) by (simp add: update_player_def Let_def)
  have "\<exists>p'. updatePlayerMovement p_turn (Fin (10 ^ 308)) = Some p' \<and> angle p' = PInf"
    by (simp add: updatePlayerMovement_def p_turn_def Let_def atan2_sin_cos_3 minus_jsnum_def
        normalize_diff_def up down PLAYER_TURN_SPEED_def to_double_12e308 [simplified])
  then obtain p' where p': "updatePlayerMovement p_turn (Fin (10 ^ 308)) = Some p'" "angle p' = PInf"
    by blast
  have "angle (updatePlayerTrail p') = PInf"
    using p'(2) by (simp add: updatePlayerTrail_def Let_def)
  then have c: "map_option (map (\<lambda>(ident, q). angle q))
      (GameState_update (Fin (10 ^ 308)) [(''p'', p_turn)]) = Some [PInf]"
    using p'(1) by (simp add: update_player_def Let_def) (simp add: p_turn_def)
  show ?thesis by (intro conjI a f(1,2) b c)
qed

section \<open>When the capture polygon is computed\<close>

text \<open>
  With an exit edge of at least \<open>-1\<close> and an entry edge inside the polygon every boundary walk
  ends and reads inside the array.
\<close>

lemma smod_nonneg: "0 \<le> (a::int) \<Longrightarrow> 0 < b \<Longrightarrow> a smod b = a mod b"
  by (cases "a = 0") (simp_all add: signed_modulo_int_def)

lemma mod_cycle_diff:
  fixes i stop n :: int
  assumes "0 \<le> i" "i < n" "0 \<le> stop" "stop < n"
  shows "(stop - i) mod n = (if i \<le> stop then stop - i else stop - i + n)"
proof (cases "i \<le> stop")
  case True
  then show ?thesis using assms by simp
next
  case False
  have "(stop - i) mod n = (stop - i + n) mod n" by simp
  also have "\<dots> = stop - i + n" using False assms by (intro mod_pos_pos_trivial) simp_all
  finally show ?thesis using False by simp
qed

lemma extractBoundaryArc_loop_returns:
  "0 \<le> i \<Longrightarrow> i < int (length polygon) \<Longrightarrow> 0 \<le> stop \<Longrightarrow> stop < int (length polygon) \<Longrightarrow>
   k = nat ((stop - i) mod int (length polygon)) \<Longrightarrow>
   \<exists>arc'. extractBoundaryArc_loop polygon i stop arc = Some arc' \<and> None \<notin> set arc' - set arc"
proof (induction k arbitrary: i arc)
  case 0
  let ?n = "int (length polygon)"
  have "(stop - i) mod ?n = (if i \<le> stop then stop - i else stop - i + ?n)"
    using 0 by (intro mod_cycle_diff)
  then have "i = stop" using 0 by (simp split: if_splits)
  then show ?case by (subst extractBoundaryArc_loop.simps) simp
next
  case (Suc k)
  let ?n = "int (length polygon)"
  have n: "0 < ?n" using Suc.prems by linarith
  have ne: "i \<noteq> stop" using Suc.prems(5) by auto
  let ?i' = "(i + 1) smod ?n"
  have i': "?i' = (i + 1) mod ?n" using Suc.prems n by (intro smod_nonneg) simp_all
  have r: "0 \<le> ?i'" "?i' < ?n" using n unfolding i' by simp_all
  have d: "(stop - i) mod ?n = (if i \<le> stop then stop - i else stop - i + ?n)"
    using Suc.prems by (intro mod_cycle_diff)
  have d': "(stop - ?i') mod ?n = (if ?i' \<le> stop then stop - ?i' else stop - ?i' + ?n)"
    using r Suc.prems by (intro mod_cycle_diff)
  have i'_val: "?i' = (if i + 1 = ?n then 0 else i + 1)"
    unfolding i' using Suc.prems by (simp add: mod_pos_pos_trivial)
  have "(stop - ?i') mod ?n = (stop - i) mod ?n - 1"
    apply (subst d')
    apply (subst d)
    unfolding i'_val using Suc.prems(1-4) ne by (auto split: if_splits)
  then have k: "k = nat ((stop - ?i') mod ?n)" using Suc.prems(5) by simp
  from Suc.IH [OF r Suc.prems(3,4) k, of "arc @ [js_nth polygon i]"]
  obtain arc' where arc': "extractBoundaryArc_loop polygon ?i' stop (arc @ [js_nth polygon i]) = Some arc'"
    "None \<notin> set arc' - set (arc @ [js_nth polygon i])" by blast
  have "js_nth polygon i \<noteq> None" using Suc.prems by (simp add: js_nth_def)
  then have "None \<notin> set arc' - set arc" using arc'(2) by auto
  moreover have "extractBoundaryArc_loop polygon i stop arc = Some arc'"
    using ne arc'(1) by (subst extractBoundaryArc_loop.simps) simp
  ultimately show ?case by blast
qed

lemma extractBoundaryArc_returns:
  assumes "polygon \<noteq> []" "- 1 \<le> s" "- 1 \<le> e"
  shows "\<exists>arc. extractBoundaryArc polygon s e = Some arc \<and> None \<notin> set arc"
proof -
  let ?n = "int (length polygon)"
  have n: "0 < ?n" using assms(1) by simp
  have s: "(s + 1) smod ?n = (s + 1) mod ?n" using assms n by (intro smod_nonneg) simp_all
  have e: "(e + 1) smod ?n = (e + 1) mod ?n" using assms n by (intro smod_nonneg) simp_all
  have "\<exists>arc'. extractBoundaryArc_loop polygon ((s + 1) mod ?n) ((e + 1) mod ?n) [] = Some arc' \<and>
          None \<notin> set arc' - set []"
    using n by (intro extractBoundaryArc_loop_returns [OF _ _ _ _ refl]) simp_all
  then show ?thesis using assms(1) by (simp add: extractBoundaryArc_def s e)
qed

lemma sameEdge_arcB_defined:
  "0 \<le> i \<Longrightarrow> i < int (length terr) \<Longrightarrow> None \<notin> set (sameEdge_arcB terr i k)"
proof (induction k arbitrary: i)
  case 0
  then show ?case by simp
next
  case (Suc k)
  let ?n = "int (length terr)"
  have n: "0 < ?n" using Suc.prems by linarith
  have "(i + 1) smod ?n = (i + 1) mod ?n" using Suc.prems n by (intro smod_nonneg) simp_all
  then have "0 \<le> (i + 1) smod ?n" "(i + 1) smod ?n < ?n" using n by simp_all
  from Suc.IH [OF this] show ?case using Suc.prems by (simp add: js_nth_def)
qed

lemma those_defined: "None \<notin> set xs \<Longrightarrow> those xs = Some (map the xs)"
proof (induction xs)
  case Nil
  then show ?case by simp
next
  case (Cons a xs)
  then show ?case by (cases a) auto
qed

lemma choose_candidate_defined:
  "None \<notin> set a \<Longrightarrow> None \<notin> set b \<Longrightarrow> \<exists>poly. choose_candidate a b = Inr poly"
  by (simp add: choose_candidate_def getPolygonArea_holes_def those_defined)

lemma computeCapture_returns:
  assumes "- 1 \<le> exitEdge" "0 \<le> entryEdge" "entryEdge < int (length terr)"
  shows "\<exists>poly. computeCapture terr trl exitPt exitEdge entryPt entryEdge = Some (Inr poly)"
proof (cases "exitEdge = entryEdge")
  case True
  let ?n = "int (length terr)"
  have n: "0 < ?n" using assms by linarith
  have "(exitEdge + 1) smod ?n = (exitEdge + 1) mod ?n" using assms n by (intro smod_nonneg) simp_all
  then have "0 \<le> (exitEdge + 1) smod ?n" "(exitEdge + 1) smod ?n < ?n" using n by simp_all
  from sameEdge_arcB_defined [OF this]
  have "None \<notin> set (sameEdge_arcB terr ((exitEdge + 1) smod ?n) (length terr))" .
  then show ?thesis
    using True choose_candidate_defined
    by (simp add: computeCapture_def Let_def image_iff)
next
  case False
  have ne: "terr \<noteq> []" using assms by auto
  obtain arcA where a: "extractBoundaryArc terr exitEdge entryEdge = Some arcA" "None \<notin> set arcA"
    using extractBoundaryArc_returns [OF ne assms(1), of entryEdge] assms(2) by auto
  obtain arcB where b: "extractBoundaryArc terr entryEdge exitEdge = Some arcB" "None \<notin> set arcB"
    using extractBoundaryArc_returns [OF ne _ assms(1), of entryEdge] assms(2) by auto
  show ?thesis
    using False a b choose_candidate_defined
    by (simp add: computeCapture_def Let_def image_iff)
qed

text \<open>The same-edge case always returns (possibly with an error).\<close>

lemma computeCapture_same_edge_returns:
  "\<exists>r. computeCapture terr trl exitPt e entryPt e = Some r"
  by (simp add: computeCapture_def Let_def)

section \<open>One round of a player that attempts a capture\<close>

lemma isPointInPolygon_Nil [simp]: "\<not> isPointInPolygon pt []"
  by (simp add: isPointInPolygon_def)

lemma findBoundaryIntersection_loop_edge:
  "findBoundaryIntersection_loop a b polygon i = Some hit \<Longrightarrow> edgeIndex hit < length polygon"
proof (induction a b polygon i rule: findBoundaryIntersection_loop.induct)
  case (1 a b polygon i)
  show ?case
  proof (cases "i < length polygon")
    case False
    then show ?thesis using "1.prems" by (subst (asm) findBoundaryIntersection_loop.simps) simp
  next
    case True
    show ?thesis
    proof (cases "getSegmentIntersection a b (polygon ! i) (polygon ! ((i + 1) mod length polygon))")
      case None
      then have "findBoundaryIntersection_loop a b polygon (i + 1) = Some hit"
        using "1.prems" True by (subst (asm) findBoundaryIntersection_loop.simps) simp
      then show ?thesis using "1.IH" [OF True None] by simp
    next
      case (Some pt)
      then have "hit = \<lparr>point = pt, edgeIndex = i\<rparr>"
        using "1.prems" True by (subst (asm) findBoundaryIntersection_loop.simps) simp
      then show ?thesis using True by simp
    qed
  qed
qed

lemma closest_vertex_range: "terr \<noteq> [] \<Longrightarrow> closest_vertex terr pt < length terr"
proof -
  define step where "step = (\<lambda>i (closestIdx :: nat, minD).
                  let d = Math_hypot (px (terr ! i) - px pt) (py (terr ! i) - py pt)
                  in if d < minD then (i, d) else (closestIdx, minD))"
  have "fst (fold step [0..<k] acc) < length terr"
    if "fst acc < length terr" "k \<le> length terr" for k acc
    using that
  proof (induction k)
    case 0
    then show ?case by simp
  next
    case (Suc k)
    define acc' where "acc' = fold step [0..<k] acc"
    have "fst acc' < length terr" using Suc by (simp add: acc'_def)
    moreover have "fst (step k acc') = k \<or> fst (step k acc') = fst acc'"
      by (cases acc') (simp add: step_def Let_def)
    moreover have "k < length terr" using Suc.prems by simp
    ultimately show ?case by (auto simp: acc'_def)
  qed
  then show ?thesis if "terr \<noteq> []" using that by (simp add: closest_vertex_def step_def)
qed

lemma entry_hit_range:
  "territory p \<noteq> [] \<Longrightarrow>
   0 \<le> snd (entry_hit p prevPos currentPos) \<and>
   snd (entry_hit p prevPos currentPos) < int (length (territory p))"
  using findBoundaryIntersection_loop_edge [of prevPos currentPos "territory p" 0]
    closest_vertex_range [of "territory p" currentPos]
  by (auto simp: entry_hit_def findBoundaryIntersection_def split: option.splits)

lemma check_player_entry:
  assumes "getPlayer g ident = Some p" "\<not> isDead p" "isOutside p"
    "isPointInPolygon (currentPos_of p) (territory p)"
    "exitPoint p = Some exitPt" "2 < length (trail p)"
    "computeCapture (territory p) (trail p) exitPt (exitEdgeIndex p)
       (fst (entry_hit p (prevPos_of p) (currentPos_of p)))
       (snd (entry_hit p (prevPos_of p) (currentPos_of p))) = Some captured"
  shows "check_player h ident g = Some (AList.update ident (entry_result p captured) g)"
proof -
  let ?r = "try_capture p entry_commit captured"
  let ?q = "clear_trail_state (fst ?r)"
  have ex: "exit_detection p True (prevPos_of p) (currentPos_of p) = p"
    using assms(3) by (simp add: exit_detection_def)
  have en: "entry_detection p True (prevPos_of p) (currentPos_of p) = Some (?q, snd ?r)"
    using assms(3,5,6,7) by (simp add: entry_detection_def)
  have q: "exitPoint ?q = None" "\<not> isOutside ?q" by (simp_all add: clear_trail_state_def)
  have lc: "loop_closure ?q True (currentPos_of p) (snd ?r) = Some (?q, snd ?r)"
    using q by (simp add: loop_closure_def)
  have cp: "capture_phase p True (prevPos_of p) (currentPos_of p) = Some (?q, snd ?r)"
    by (simp add: capture_phase_def ex en lc)
  show ?thesis
    using assms(1,2,4) q(2)
    by (simp add: check_player_def Let_def cp collision_phase_def entry_result_def)
qed

lemma check_player_loop:
  assumes "getPlayer g ident = Some p" "\<not> isDead p" "isOutside p"
    "\<not> isPointInPolygon (currentPos_of p) (territory p)"
    "exitPoint p = Some exitPt" "10 < length (trail p)"
    "distToExit (currentPos_of p) exitPt < Fin 80"
    "computeCapture (territory p) (trail p) exitPt (exitEdgeIndex p) exitPt (exitEdgeIndex p)
       = Some captured"
  shows "check_player h ident g = Some (AList.update ident (loop_result p captured) g)"
proof -
  let ?r = "try_capture p loop_commit captured"
  let ?q = "clear_trail_state (fst ?r)"
  have ex: "exit_detection p False (prevPos_of p) (currentPos_of p) = p"
    using assms(3) by (simp add: exit_detection_def)
  have en: "entry_detection p False (prevPos_of p) (currentPos_of p) = Some (p, False)"
    by (simp add: entry_detection_def)
  have lc: "loop_closure p False (currentPos_of p) False = Some (?q, snd ?r)"
    using assms(3,5,6,7,8) by (simp add: loop_closure_def)
  have q: "\<not> isOutside ?q" by (simp add: clear_trail_state_def)
  have cp: "capture_phase p False (prevPos_of p) (currentPos_of p) = Some (?q, snd ?r)"
    by (simp add: capture_phase_def ex en lc)
  show ?thesis
    using assms(1,2,4) q
    by (simp add: check_player_def Let_def cp collision_phase_def loop_result_def)
qed

subsection \<open>The re-entering player \<open>p_entry\<close>, evaluated\<close>

lemma p_entry_hit: "entry_hit p_entry (prevPos_of p_entry) (currentPos_of p_entry) = (fpoint 30 0, 0)"
  by (simp add: entry_hit_def p_entry_def prevPos_of_def currentPos_of_def square100_def fpoint_def
      findBoundaryIntersection_def getSegmentIntersection_def js_eq_def minus_jsnum_def Let_def)

lemma p_entry_inside: "isPointInPolygon (currentPos_of p_entry) (territory p_entry)"
  by (simp add: isPointInPolygon_def p_entry_def currentPos_of_def square100_def fpoint_def
      edge_intersect_def minus_jsnum_def)

lemma p_entry_computeCapture:
  "computeCapture square100 [fpoint 70 0, fpoint 70 (- 20), fpoint 30 (- 20)] (fpoint 70 0) 0 (fpoint 30 0) 0
   = Some (Inr entry_captured)"
proof -
  have a: "getPolygonArea [fpoint 70 0, fpoint 70 0, fpoint 70 (- 20), fpoint 30 (- 20), fpoint 30 0] = Fin 800"
    by (simp add: getPolygonArea_def getSignedPolygonArea_def fpoint_def minus_jsnum_def Let_def)
  have b: "getPolygonArea entry_captured = Fin 9200"
    by (simp add: getPolygonArea_def getSignedPolygonArea_def fpoint_def minus_jsnum_def Let_def
        entry_captured_def)
  have arcB: "sameEdge_arcB square100 1 4 = map Some [fpoint 100 0, fpoint 100 100, fpoint 0 100, fpoint 0 0]"
    by (simp add: square100_def js_nth_def signed_modulo_int_def numeral_nat)
  have l: "length square100 = 4" by (simp add: square100_def)
  have ha: "getPolygonArea_holes (map Some [fpoint 70 0, fpoint 70 0, fpoint 70 (- 20), fpoint 30 (- 20), fpoint 30 0]) = Inr (Fin 800)"
    using a by (simp add: getPolygonArea_holes_def)
  have hb: "getPolygonArea_holes (map Some entry_captured) = Inr (Fin 9200)"
    unfolding getPolygonArea_holes_def b [symmetric] by (simp add: entry_captured_def)
  have e: "map Some [fpoint 70 0, fpoint 70 0, fpoint 70 (- 20), fpoint 30 (- 20), fpoint 30 0]
           @ map Some [fpoint 100 0, fpoint 100 100, fpoint 0 100, fpoint 0 0] = map Some entry_captured"
    by (simp add: entry_captured_def)
  have "choose_candidate (map Some [fpoint 70 0, fpoint 70 0, fpoint 70 (- 20), fpoint 30 (- 20), fpoint 30 0])
          (map Some entry_captured) = Inr entry_captured"
    unfolding choose_candidate_def ha hb by (simp add: entry_captured_def)
  then show ?thesis
    unfolding computeCapture_def Let_def l
    by (simp add: arcB entry_captured_def signed_modulo_int_def)
qed

lemma p_entry_newTerritory: "entry_newTerritory entry_captured = entry_territory"
proof -
  have s: "simplifyPolygon entry_captured (Fin 1) = entry_territory"
    by (simp add: simplifyPolygon_def entry_captured_def entry_territory_def fpoint_def
        minus_jsnum_def Let_def)
  have "getSignedPolygonArea entry_territory = Fin 9200"
    by (simp add: getSignedPolygonArea_def fpoint_def minus_jsnum_def Let_def entry_territory_def)
  then have c: "ensureClockwise entry_territory = entry_territory"
    by (simp add: ensureClockwise_def)
  have l: "length entry_territory = 8" by (simp add: entry_territory_def)
  show ?thesis by (simp add: entry_newTerritory_def Let_def s l c)
qed

lemma entry_territory_area: "calculateArea entry_territory = Fin 9200"
  by (simp add: calculateArea_def fpoint_def minus_jsnum_def Let_def entry_territory_def)

lemma valid_is_finite:
  "list_all (\<lambda>q. \<not> isNaN (px q) \<and> \<not> isNaN (py q) \<and> isFinite (px q) \<and> isFinite (py q)) ps
   = list_all finite_point ps"
  by (induction ps) (auto simp: finite_point_def isNaN_def)

lemma p_entry_commit:
  "entry_commit p entry_captured = Inr (commit p entry_territory (Fin 9200), True)"
  by (simp add: entry_commit_def Let_def p_entry_newTerritory entry_territory_area valid_is_finite)
     (simp add: entry_territory_def finite_point_def fpoint_def)

subsection \<open>The two commit decisions\<close>

lemma floor_gt_100:
  "Fin 100 < Math_floor a \<Longrightarrow> isFinite (Math_floor a) \<Longrightarrow> Fin 100 < a \<and> isFinite a"
proof (cases a)
  case (Fin x)
  assume "Fin 100 < Math_floor a"
  then have "100 < \<lfloor>x\<rfloor>" using Fin by simp
  then have "100 < x" by linarith
  then show ?thesis using Fin by simp
qed simp_all

lemma floor_less_imp_less: "Math_floor a < Math_floor b \<Longrightarrow> a < b"
  by (cases a; cases b) (simp_all add: floor_less_cancel)

lemma try_capture_entry:
  "try_capture p entry_commit (Inr poly) =
     (if list_all finite_point (entry_newTerritory poly) \<and> 3 < length (entry_newTerritory poly) \<and>
         Fin 100 < Math_floor (calculateArea (entry_newTerritory poly)) \<and>
         isFinite (Math_floor (calculateArea (entry_newTerritory poly)))
      then (commit p (entry_newTerritory poly) (Math_floor (calculateArea (entry_newTerritory poly))), True)
      else (p, False))"
  by (simp add: try_capture_def entry_commit_def Let_def valid_is_finite)

lemma try_capture_loop:
  "try_capture p loop_commit (Inr poly) =
     (if list_all (\<lambda>q. \<not> isNaN (px q) \<and> \<not> isNaN (py q)) (loop_newTerritory poly) \<and>
         3 < length (loop_newTerritory poly) \<and>
         score p < Math_floor (calculateArea (loop_newTerritory poly))
      then (commit p (loop_newTerritory poly) (Math_floor (calculateArea (loop_newTerritory poly))), True)
      else (p, False))"
  by (simp add: try_capture_def loop_commit_def Let_def)

lemma try_capture_error [simp]: "try_capture p body (Inl e) = (p, False)"
  by (simp add: try_capture_def)

subsection \<open>What the capture phase changes\<close>

lemma exit_detection_fields [simp]:
  "territory (exit_detection p i a b) = territory p"
  "score (exit_detection p i a b) = score p"
  "isDead (exit_detection p i a b) = isDead p"
  "hasWon (exit_detection p i a b) = hasWon p"
  "posx (exit_detection p i a b) = posx p"
  "posy (exit_detection p i a b) = posy p"
  by (simp_all add: exit_detection_def split: option.splits)

lemma clear_trail_state_fields [simp]:
  "territory (clear_trail_state p) = territory p"
  "score (clear_trail_state p) = score p"
  "isDead (clear_trail_state p) = isDead p"
  "hasWon (clear_trail_state p) = hasWon p"
  "posx (clear_trail_state p) = posx p"
  "posy (clear_trail_state p) = posy p"
  "trail (clear_trail_state p) = []"
  "\<not> isOutside (clear_trail_state p)"
  "exitPoint (clear_trail_state p) = None"
  by (simp_all add: clear_trail_state_def)

lemma commit_fields [simp]:
  "territory (commit p nt a) = nt"
  "score (commit p nt a) = a"
  "isDead (commit p nt a) = isDead p"
  "hasWon (commit p nt a) = hasWon p"
  "posx (commit p nt a) = posx p"
  "posy (commit p nt a) = posy p"
  by (simp_all add: commit_def)

lemma victory_fields [simp]:
  "territory (victory p) = territory p"
  "score (victory p) = score p"
  "isDead (victory p) = isDead p"
  "hasWon (victory p)"
  "\<not> isOutside (victory p)"
  by (simp_all add: victory_def Let_def)

lemma try_capture_entry_cases:
  "try_capture p entry_commit captured = (q, jc) \<Longrightarrow>
   \<not> jc \<and> q = p \<or> jc \<and> committed (\<lambda>a. Fin 100 < a \<and> isFinite a) p q"
  by (cases captured) (auto simp: try_capture_entry committed_def split: if_splits)

lemma try_capture_loop_cases:
  "try_capture p loop_commit captured = (q, jc) \<Longrightarrow>
   \<not> jc \<and> q = p \<or> jc \<and> committed (\<lambda>a. score p < a) p q"
  by (cases captured) (auto simp: try_capture_loop committed_def split: if_splits)

lemma entry_detection_cases:
  assumes "entry_detection p ins pv cp = Some (q, jc)"
  shows "\<not> jc \<and> territory q = territory p \<and> score q = score p \<and> isDead q = isDead p \<and>
           hasWon q = hasWon p \<and> posx q = posx p \<and> posy q = posy p \<and>
           (isOutside q \<longrightarrow> isOutside p \<and> trail q = trail p \<and> exitPoint q = exitPoint p) \<or>
         jc \<and> ins \<and> isOutside p \<and>
           (\<exists>r. q = clear_trail_state r \<and> committed (\<lambda>a. Fin 100 < a \<and> isFinite a) p r)"
proof (cases "isOutside p \<and> ins \<and> exitPoint p \<noteq> None \<and> 2 < length (trail p)")
  case False
  then have "q = p" "\<not> jc"
    using assms by (auto simp: entry_detection_def split: option.splits if_splits)
  then show ?thesis by simp
next
  case True
  then obtain exitPt where e: "exitPoint p = Some exitPt" by auto
  from assms True e obtain captured where
    q: "q = clear_trail_state (fst (try_capture p entry_commit captured))"
       "jc = snd (try_capture p entry_commit captured)"
    by (auto simp: entry_detection_def split: option.splits)
  from try_capture_entry_cases [of p captured "fst (try_capture p entry_commit captured)" jc] q(2)
  have "\<not> jc \<and> fst (try_capture p entry_commit captured) = p \<or>
        jc \<and> committed (\<lambda>a. Fin 100 < a \<and> isFinite a) p (fst (try_capture p entry_commit captured))"
    by simp
  then show ?thesis using q(1) True by auto
qed

lemma loop_closure_cases:
  assumes "loop_closure p ins cp jc0 = Some (q, jc)"
  shows "jc = jc0 \<and> territory q = territory p \<and> score q = score p \<and> isDead q = isDead p \<and>
           hasWon q = hasWon p \<and> posx q = posx p \<and> posy q = posy p \<and>
           (isOutside q \<longrightarrow> q = p) \<or>
         jc \<and> \<not> ins \<and> isOutside p \<and> 10 < length (trail p) \<and>
           (\<exists>r. q = clear_trail_state r \<and> committed (\<lambda>a. score p < a) p r)"
proof (cases "exitPoint p")
  case None
  then show ?thesis using assms by (simp add: loop_closure_def)
next
  case (Some exitPt)
  show ?thesis
  proof (cases "isOutside p \<and> \<not> ins \<and> 10 < length (trail p) \<and> distToExit cp exitPt < Fin 80")
    case False
    then have "q = p" "jc = jc0" using assms Some by (auto simp: loop_closure_def)
    then show ?thesis by simp
  next
    case True
    from assms True Some obtain captured where
      q: "q = clear_trail_state (fst (try_capture p loop_commit captured))"
         "jc = (jc0 \<or> snd (try_capture p loop_commit captured))"
      by (auto simp: loop_closure_def split: option.splits)
    from try_capture_loop_cases [of p captured "fst (try_capture p loop_commit captured)"
        "snd (try_capture p loop_commit captured)"]
    have "\<not> snd (try_capture p loop_commit captured) \<and> fst (try_capture p loop_commit captured) = p \<or>
          snd (try_capture p loop_commit captured) \<and>
          committed (\<lambda>a. score p < a) p (fst (try_capture p loop_commit captured))"
      by simp
    then show ?thesis using q True by auto
  qed
qed

section \<open>The loop over the nearby items\<close>

lemma getPlayer_update:
  "getPlayer (AList.update k v g) k' = (if k' = k then Some v else getPlayer g k')"
  by (simp add: getPlayer_def update_conv')

lemma keys_update: "getPlayer g k \<noteq> None \<Longrightarrow> map fst (AList.update k v g) = map fst g"
  by (auto simp: getPlayer_def update_keys map_of_eq_None_iff)

lemma killPlayer_idem [simp]: "killPlayer (killPlayer q) = killPlayer q"
  by (simp add: killPlayer_def)

lemma killPlayer_fields [simp]:
  "isDead (killPlayer q)" "trail (killPlayer q) = []" "isOutside (killPlayer q) = isOutside q"
  "hasWon (killPlayer q) = hasWon q" "territory (killPlayer q) = territory q"
  "score (killPlayer q) = score q"
  by (simp_all add: killPlayer_def)

lemma getPlayer_kill_victim:
  "getPlayer (kill_victim v g) k =
     (if k = v then map_option (\<lambda>q. if isOutside q then killPlayer q else q) (getPlayer g v)
      else getPlayer g k)"
  by (auto simp: kill_victim_def getPlayer_update split: option.splits)

lemma keys_kill_victim: "map fst (kill_victim v g) = map fst g"
  by (auto simp: kill_victim_def keys_update split: option.splits)

lemma keys_collision_loop:
  "getPlayer g ident \<noteq> None \<Longrightarrow>
   map fst (collision_loop ident p isInside prevPos currentPos nearby g) = map fst g"
proof (induction nearby arbitrary: g)
  case Nil
  then show ?case by simp
next
  case (Cons it nearby)
  let ?g1 = "if cuts_foreign ident prevPos currentPos it then kill_victim (playerId it) g else g"
  have k: "map fst ?g1 = map fst g" by (simp add: keys_kill_victim)
  have n: "getPlayer ?g1 ident \<noteq> None"
    using Cons.prems by (auto simp: getPlayer_kill_victim cuts_foreign_def)
  show ?case
    using Cons.IH [OF n] k n by (simp add: Let_def keys_update)
qed

text \<open>What the loop does to the moving player: nothing, unless an item hits its own trail.\<close>

lemma collision_loop_self:
  "getPlayer g ident = Some p \<Longrightarrow>
   getPlayer (collision_loop ident p isInside prevPos currentPos nearby g) ident =
     Some (if \<exists>it\<in>set nearby. hits_self ident p isInside prevPos currentPos it
           then killPlayer p else p)"
proof (induction nearby arbitrary: g)
  case Nil
  then show ?case by simp
next
  case (Cons it nearby)
  let ?g1 = "if cuts_foreign ident prevPos currentPos it then kill_victim (playerId it) g else g"
  have n: "getPlayer ?g1 ident = Some p"
    using Cons.prems by (auto simp: getPlayer_kill_victim cuts_foreign_def)
  show ?case
    using Cons.IH [OF n] by (simp add: Let_def getPlayer_update)
qed

text \<open>What the loop does to another player: nothing, or it kills it, and then it was outside.\<close>

lemma collision_loop_other:
  "k \<noteq> ident \<Longrightarrow> getPlayer g k = Some q \<Longrightarrow>
   \<exists>q'. getPlayer (collision_loop ident p isInside prevPos currentPos nearby g) k = Some q' \<and>
        (q' = q \<or>
         q' = killPlayer q \<and> isOutside q \<and>
         (\<exists>it\<in>set nearby. cuts_foreign ident prevPos currentPos it \<and> playerId it = k))"
proof (induction nearby arbitrary: g q)
  case Nil
  then show ?case by simp
next
  case (Cons it nearby)
  let ?g1 = "if cuts_foreign ident prevPos currentPos it then kill_victim (playerId it) g else g"
  let ?hit = "cuts_foreign ident prevPos currentPos it \<and> playerId it = k \<and> isOutside q"
  let ?q1 = "if ?hit then killPlayer q else q"
  have q1: "getPlayer ?g1 k = Some ?q1"
    using Cons.prems by (auto simp: getPlayer_kill_victim)
  show ?case
  proof (cases "hits_self ident p isInside prevPos currentPos it")
    case True
    then have "collision_loop ident p isInside prevPos currentPos (it # nearby) g
               = AList.update ident (killPlayer p) ?g1"
      by (simp add: Let_def)
    then have "getPlayer (collision_loop ident p isInside prevPos currentPos (it # nearby) g) k
               = Some ?q1"
      using q1 Cons.prems(1) by (simp add: getPlayer_update)
    then show ?thesis by auto
  next
    case False
    then have e: "collision_loop ident p isInside prevPos currentPos (it # nearby) g
               = collision_loop ident p isInside prevPos currentPos nearby ?g1"
      by (simp add: Let_def)
    from Cons.IH [OF Cons.prems(1) q1] obtain q' where
      q': "getPlayer (collision_loop ident p isInside prevPos currentPos nearby ?g1) k = Some q'"
          "q' = ?q1 \<or> q' = killPlayer ?q1 \<and> isOutside ?q1 \<and>
             (\<exists>it\<in>set nearby. cuts_foreign ident prevPos currentPos it \<and> playerId it = k)"
      by blast
    show ?thesis
      unfolding e using q' by (intro exI [of _ q']) (auto split: if_splits)
  qed
qed

text \<open>The loop skips territory items.\<close>

lemma collision_loop_territory:
  "collision_loop ident p isInside prevPos currentPos nearby g =
   collision_loop ident p isInside prevPos currentPos (filter (\<lambda>it. itype it = Trail) nearby) g"
  by (induction nearby arbitrary: g) (auto simp: Let_def cuts_foreign_def hits_self_def)

text \<open>A victim that is outside dies, if its item comes before the moving player hits itself.\<close>

lemma collision_loop_victim:
  "getPlayer g ident = Some p \<Longrightarrow>
   it \<in> set (takeWhile (\<lambda>it. \<not> hits_self ident p isInside prevPos currentPos it) nearby) \<Longrightarrow>
   cuts_foreign ident prevPos currentPos it \<Longrightarrow>
   getPlayer g (playerId it) = Some v \<Longrightarrow> isOutside v \<Longrightarrow>
   getPlayer (collision_loop ident p isInside prevPos currentPos nearby g) (playerId it)
     = Some (killPlayer v)"
proof (induction nearby arbitrary: g v)
  case Nil
  then show ?case by simp
next
  case (Cons a nearby)
  let ?g1 = "if cuts_foreign ident prevPos currentPos a then kill_victim (playerId a) g else g"
  have nh: "\<not> hits_self ident p isInside prevPos currentPos a"
    using Cons.prems(2) by (auto split: if_splits)
  have e: "collision_loop ident p isInside prevPos currentPos (a # nearby) g
               = collision_loop ident p isInside prevPos currentPos nearby ?g1"
    using nh by (simp add: Let_def)
  have ne: "playerId it \<noteq> ident" using Cons.prems(3) by (simp add: cuts_foreign_def)
  have n: "getPlayer ?g1 ident = Some p"
    using Cons.prems(1) by (auto simp: getPlayer_kill_victim cuts_foreign_def)
  show ?case
  proof (cases "it = a")
    case True
    have "getPlayer ?g1 (playerId it) = Some (killPlayer v)"
      using Cons.prems(3,4,5) True by (simp add: getPlayer_kill_victim)
    from collision_loop_other [OF ne this, of p isInside prevPos currentPos nearby]
    show ?thesis unfolding e by auto
  next
    case False
    then have m: "it \<in> set (takeWhile (\<lambda>it. \<not> hits_self ident p isInside prevPos currentPos it) nearby)"
      using Cons.prems(2) nh by simp
    let ?v1 = "if cuts_foreign ident prevPos currentPos a \<and> playerId a = playerId it
               then killPlayer v else v"
    have v1: "getPlayer ?g1 (playerId it) = Some ?v1"
      using Cons.prems(4,5) by (auto simp: getPlayer_kill_victim)
    have o: "isOutside ?v1" using Cons.prems(5) by simp
    from Cons.IH [OF n m Cons.prems(3) v1 o]
    show ?thesis unfolding e by (simp split: if_splits)
  qed
qed

section \<open>What the hash holds\<close>

lemma hash_insert_mem:
  "it \<in> set (hash_insert obj u v h key) \<Longrightarrow> it = obj \<or> it \<in> set (h key)"
  by (auto simp: hash_insert_def split: if_splits)

lemma hash_insert_mono: "it \<in> set (h key) \<Longrightarrow> it \<in> set (hash_insert obj u v h key)"
  by (auto simp: hash_insert_def)

lemma hash_insert_self: "obj \<in> set (hash_insert obj u v h (getKey u v))"
  by (simp add: hash_insert_def)

lemma insertSegment_mem:
  "it \<in> set (insertSegment obj a b h key) \<Longrightarrow> it = obj \<or> it \<in> set (h key)"
  unfolding insertSegment_def by (blast dest: hash_insert_mem)

lemma insertSegment_mono: "it \<in> set (h key) \<Longrightarrow> it \<in> set (insertSegment obj a b h key)"
  unfolding insertSegment_def by (intro hash_insert_mono)

lemma insertSegment_self: "obj \<in> set (insertSegment obj a b h (getKey (px a) (py a)))"
  unfolding insertSegment_def by (intro hash_insert_mono hash_insert_self)

lemma fold_insertSegment_mem:
  "it \<in> set (fold (\<lambda>i. insertSegment (f i) (a i) (b i)) xs h key) \<Longrightarrow>
   it \<in> set (h key) \<or> (\<exists>i\<in>set xs. it = f i)"
proof (induction xs arbitrary: h)
  case Nil
  then show ?case by simp
next
  case (Cons x xs)
  from Cons.IH [of "insertSegment (f x) (a x) (b x) h"] Cons.prems
  show ?case by (auto dest: insertSegment_mem)
qed

lemma fold_insertSegment_mono:
  "it \<in> set (h key) \<Longrightarrow> it \<in> set (fold (\<lambda>i. insertSegment (f i) (a i) (b i)) xs h key)"
  by (induction xs arbitrary: h) (simp_all add: insertSegment_mono)

lemma fold_insertSegment_self:
  "i \<in> set xs \<Longrightarrow>
   f i \<in> set (fold (\<lambda>i. insertSegment (f i) (a i) (b i)) xs h (getKey (px (a i)) (py (a i))))"
proof (induction xs arbitrary: h)
  case Nil
  then show ?case by simp
next
  case (Cons x xs)
  show ?case
  proof (cases "i = x")
    case True
    then show ?thesis
      by (simp add: fold_insertSegment_mono insertSegment_self)
  next
    case False
    then show ?thesis using Cons by simp
  qed
qed

lemma index_player_mem:
  assumes "it \<in> set (index_player ident p h key)"
  shows "it \<in> set (h key) \<or>
         playerId it = ident \<and> (itype it = Trail \<longrightarrow> 2 \<le> length (trail p))"
proof -
  let ?f = "\<lambda>i. \<lparr>itype = Trail, playerId = ident, p1 = trail p ! i, p2 = trail p ! (i + 1),
                  index = Some i\<rparr>"
  let ?h1 = "fold (\<lambda>i. insertSegment (?f i) (trail p ! i) (trail p ! (i + 1)))
               [0..<length (trail p) - 1] h"
  let ?t = "\<lambda>i. \<lparr>itype = Territory, playerId = ident, p1 = territory p ! i,
                  p2 = territory p ! ((i + 1) mod length (territory p)), index = None\<rparr>"
  have "it \<in> set (fold (\<lambda>i. insertSegment (?t i) (territory p ! i)
                            (territory p ! ((i + 1) mod length (territory p))))
                    [0..<length (territory p)] ?h1 key)"
    using assms by (simp add: index_player_def Let_def)
  then have "it \<in> set (?h1 key) \<or> (\<exists>i\<in>set [0..<length (territory p)]. it = ?t i)"
    by (rule fold_insertSegment_mem)
  moreover have "it \<in> set (?h1 key) \<Longrightarrow>
      it \<in> set (h key) \<or> (\<exists>i\<in>set [0..<length (trail p) - 1]. it = ?f i)"
    by (rule fold_insertSegment_mem)
  ultimately show ?thesis by auto
qed

lemma index_player_mono: "it \<in> set (h key) \<Longrightarrow> it \<in> set (index_player ident p h key)"
  by (simp add: index_player_def Let_def fold_insertSegment_mono)

lemma index_player_self:
  assumes "i + 1 < length (trail p)"
  shows "\<lparr>itype = Trail, playerId = ident, p1 = trail p ! i, p2 = trail p ! (i + 1), index = Some i\<rparr>
         \<in> set (index_player ident p h (getKey (px (trail p ! i)) (py (trail p ! i))))"
proof -
  let ?f = "\<lambda>i. \<lparr>itype = Trail, playerId = ident, p1 = trail p ! i, p2 = trail p ! (i + 1),
                  index = Some i\<rparr>"
  have "i \<in> set [0..<length (trail p) - 1]" using assms by simp
  then have "?f i \<in> set (fold (\<lambda>i. insertSegment (?f i) (trail p ! i) (trail p ! (i + 1)))
               [0..<length (trail p) - 1] h (getKey (px (trail p ! i)) (py (trail p ! i))))"
    by (rule fold_insertSegment_self [where f = ?f and a = "\<lambda>i. trail p ! i"])
  then show ?thesis
    by (simp add: index_player_def Let_def fold_insertSegment_mono)
qed

lemma build_hash_mem:
  "it \<in> set (build_hash g h key) \<Longrightarrow>
   it \<in> set (h key) \<or>
   (\<exists>(k, q)\<in>set g. \<not> isDead q \<and> playerId it = k \<and> (itype it = Trail \<longrightarrow> 2 \<le> length (trail q)))"
proof (induction g arbitrary: h)
  case Nil
  then show ?case by (simp add: build_hash_def)
next
  case (Cons kq g)
  obtain k q where kq: "kq = (k, q)" by (cases kq)
  let ?h1 = "if isDead q then h else index_player k q h"
  have "it \<in> set (build_hash g ?h1 key)"
    using Cons.prems by (simp add: build_hash_def kq)
  from Cons.IH [OF this] show ?case
    by (auto simp: kq dest!: index_player_mem split: if_splits)
qed

lemma build_hash_mono: "it \<in> set (h key) \<Longrightarrow> it \<in> set (build_hash g h key)"
proof (induction g arbitrary: h)
  case Nil
  then show ?case by (simp add: build_hash_def)
next
  case (Cons kq g)
  obtain k q where kq: "kq = (k, q)" by (cases kq)
  let ?h1 = "if isDead q then h else index_player k q h"
  have "it \<in> set (?h1 key)"
    using Cons.prems by (simp add: index_player_mono)
  then have "it \<in> set (build_hash g ?h1 key)" by (rule Cons.IH)
  then show ?case by (simp add: build_hash_def kq)
qed

lemma build_hash_self:
  "(k, q) \<in> set g \<Longrightarrow> \<not> isDead q \<Longrightarrow> i + 1 < length (trail q) \<Longrightarrow>
   \<lparr>itype = Trail, playerId = k, p1 = trail q ! i, p2 = trail q ! (i + 1), index = Some i\<rparr>
     \<in> set (build_hash g h (getKey (px (trail q ! i)) (py (trail q ! i))))"
proof (induction g arbitrary: h)
  case Nil
  then show ?case by simp
next
  case (Cons kq g)
  obtain k' q' where kq: "kq = (k', q')" by (cases kq)
  let ?h1 = "if isDead q' then h else index_player k' q' h"
  have e: "build_hash (kq # g) h = build_hash g ?h1" by (simp add: build_hash_def kq)
  show ?case
  proof (cases "(k, q) = kq")
    case True
    then have "?h1 = index_player k q h" using Cons.prems(2) kq by auto
    then show ?thesis
      unfolding e using index_player_self [OF Cons.prems(3), of k h] by (simp add: build_hash_mono)
  next
    case False
    then have "(k, q) \<in> set g" using Cons.prems(1) by simp
    from Cons.IH [OF this Cons.prems(2,3)] show ?thesis unfolding e .
  qed
qed

lemma query_mem:
  "it \<in> set (query h u v) \<longleftrightarrow>
   (\<exists>i\<in>{- 1, 0, 1}. \<exists>j\<in>{- 1, 0, 1}.
      it \<in> set (h (Math_floor (u / cellSize) + Fin i, Math_floor (v / cellSize) + Fin j)))"
  by (simp add: query_def Let_def)

lemma query_in_hash: "it \<in> set (query h u v) \<Longrightarrow> in_hash h it"
  by (auto simp: query_mem in_hash_def)

lemma build_hash_trail_item:
  assumes "distinct (map fst g)" "has_trail_item (build_hash g clear) k"
  shows "\<exists>q. getPlayer g k = Some q \<and> \<not> isDead q \<and> 2 \<le> length (trail q)"
proof -
  from assms(2) obtain it key where
    it: "it \<in> set (build_hash g clear key)" "itype it = Trail" "playerId it = k"
    by (auto simp: has_trail_item_def in_hash_def)
  from build_hash_mem [OF it(1)] it(2,3)
  obtain q where "(k, q) \<in> set g" "\<not> isDead q" "2 \<le> length (trail q)"
    by (auto simp: clear_def)
  then show ?thesis using assms(1) by (auto simp: getPlayer_def)
qed

text \<open>The cells in which an item lies, and the items that a query returns.\<close>

lemma hash_insert_key_mem:
  "it \<in> set (hash_insert obj u v h key) \<Longrightarrow> it \<in> set (h key) \<or> it = obj \<and> key = getKey u v"
  by (auto simp: hash_insert_def split: if_splits)

lemma insertSegment_key_mem:
  "it \<in> set (insertSegment obj a b h key) \<Longrightarrow>
   it \<in> set (h key) \<or> it = obj \<and> key \<in> set (segment_keys a b)"
  unfolding insertSegment_def segment_keys_def by (auto dest!: hash_insert_key_mem)

lemma insertSegment_key_self:
  "key \<in> set (segment_keys a b) \<Longrightarrow> obj \<in> set (insertSegment obj a b h key)"
  unfolding insertSegment_def segment_keys_def
  by (auto intro: hash_insert_mono hash_insert_self)

lemma fold_insertSegment_key_mem:
  "it \<in> set (fold (\<lambda>i. insertSegment (f i) (a i) (b i)) xs h key) \<Longrightarrow>
   it \<in> set (h key) \<or> (\<exists>i\<in>set xs. it = f i \<and> key \<in> set (segment_keys (a i) (b i)))"
proof (induction xs arbitrary: h)
  case Nil
  then show ?case by simp
next
  case (Cons x xs)
  from Cons.IH [of "insertSegment (f x) (a x) (b x) h"] Cons.prems
  show ?case by (auto dest: insertSegment_key_mem)
qed

lemma fold_insertSegment_key_self:
  "i \<in> set xs \<Longrightarrow> key \<in> set (segment_keys (a i) (b i)) \<Longrightarrow>
   f i \<in> set (fold (\<lambda>i. insertSegment (f i) (a i) (b i)) xs h key)"
proof (induction xs arbitrary: h)
  case Nil
  then show ?case by simp
next
  case (Cons x xs)
  show ?case
  proof (cases "i = x")
    case True
    then show ?thesis
      using Cons.prems(2) by (simp add: fold_insertSegment_mono insertSegment_key_self)
  next
    case False
    then show ?thesis using Cons by simp
  qed
qed

lemma index_player_trail_mem:
  assumes "it \<in> set (index_player ident p h key)" "itype it = Trail"
  shows "it \<in> set (h key) \<or>
         (\<exists>i. i + 1 < length (trail p) \<and> it = trail_item ident p i \<and>
              key \<in> set (segment_keys (trail p ! i) (trail p ! (i + 1))))"
proof -
  let ?h1 = "fold (\<lambda>i. insertSegment (trail_item ident p i) (trail p ! i) (trail p ! (i + 1)))
               [0..<length (trail p) - 1] h"
  let ?t = "\<lambda>i. \<lparr>itype = Territory, playerId = ident, p1 = territory p ! i,
                  p2 = territory p ! ((i + 1) mod length (territory p)), index = None\<rparr>"
  have "it \<in> set (fold (\<lambda>i. insertSegment (?t i) (territory p ! i)
                            (territory p ! ((i + 1) mod length (territory p))))
                    [0..<length (territory p)] ?h1 key)"
    using assms(1) by (simp add: index_player_def Let_def trail_item_def)
  then have "it \<in> set (?h1 key) \<or> (\<exists>i\<in>set [0..<length (territory p)]. it = ?t i)"
    by (rule fold_insertSegment_mem)
  then have "it \<in> set (?h1 key)" using assms(2) by auto
  then have "it \<in> set (h key) \<or>
      (\<exists>i\<in>set [0..<length (trail p) - 1]. it = trail_item ident p i \<and>
          key \<in> set (segment_keys (trail p ! i) (trail p ! (i + 1))))"
    by (rule fold_insertSegment_key_mem)
  then show ?thesis by auto
qed

lemma index_player_trail_self:
  assumes "i + 1 < length (trail p)" "key \<in> set (segment_keys (trail p ! i) (trail p ! (i + 1)))"
  shows "trail_item ident p i \<in> set (index_player ident p h key)"
proof -
  have "i \<in> set [0..<length (trail p) - 1]" using assms(1) by simp
  then have "trail_item ident p i
      \<in> set (fold (\<lambda>i. insertSegment (trail_item ident p i) (trail p ! i) (trail p ! (i + 1)))
               [0..<length (trail p) - 1] h key)"
    using assms(2)
    by (rule fold_insertSegment_key_self [where f = "trail_item ident p" and a = "\<lambda>i. trail p ! i"
          and b = "\<lambda>i. trail p ! (i + 1)"])
  then show ?thesis
    by (simp add: index_player_def Let_def fold_insertSegment_mono trail_item_def)
qed

lemma build_hash_trail_mem:
  "it \<in> set (build_hash g h key) \<Longrightarrow> itype it = Trail \<Longrightarrow>
   it \<in> set (h key) \<or>
   (\<exists>k q i. (k, q) \<in> set g \<and> \<not> isDead q \<and> i + 1 < length (trail q) \<and> it = trail_item k q i \<and>
          key \<in> set (segment_keys (trail q ! i) (trail q ! (i + 1))))"
proof (induction g arbitrary: h)
  case Nil
  then show ?case by (simp add: build_hash_def)
next
  case (Cons kq g)
  obtain k q where kq: "kq = (k, q)" by (cases kq)
  let ?h1 = "if isDead q then h else index_player k q h"
  have "it \<in> set (build_hash g ?h1 key)"
    using Cons.prems(1) by (simp add: build_hash_def kq)
  from Cons.IH [OF this Cons.prems(2)] show ?case
  proof
    assume m: "it \<in> set (?h1 key)"
    show ?thesis
    proof (cases "isDead q")
      case True
      then show ?thesis using m by simp
    next
      case False
      then have "it \<in> set (index_player k q h key)" using m by simp
      from index_player_trail_mem [OF this Cons.prems(2)] False
      show ?thesis unfolding kq by auto
    qed
  next
    assume "\<exists>k q i. (k, q) \<in> set g \<and> \<not> isDead q \<and> i + 1 < length (trail q) \<and>
              it = trail_item k q i \<and> key \<in> set (segment_keys (trail q ! i) (trail q ! (i + 1)))"
    then show ?thesis by auto
  qed
qed

lemma build_hash_trail_self:
  "(k, q) \<in> set g \<Longrightarrow> \<not> isDead q \<Longrightarrow> i + 1 < length (trail q) \<Longrightarrow>
   key \<in> set (segment_keys (trail q ! i) (trail q ! (i + 1))) \<Longrightarrow>
   trail_item k q i \<in> set (build_hash g h key)"
proof (induction g arbitrary: h)
  case Nil
  then show ?case by simp
next
  case (Cons kq g)
  obtain k' q' where kq: "kq = (k', q')" by (cases kq)
  let ?h1 = "if isDead q' then h else index_player k' q' h"
  have e: "build_hash (kq # g) h = build_hash g ?h1" by (simp add: build_hash_def kq)
  show ?case
  proof (cases "(k, q) = kq")
    case True
    then have "?h1 = index_player k q h" using Cons.prems(2) kq by auto
    then show ?thesis
      unfolding e using index_player_trail_self [OF Cons.prems(3,4), of k h]
      by (simp add: build_hash_mono)
  next
    case False
    then have "(k, q) \<in> set g" using Cons.prems(1) by simp
    from Cons.IH [OF this Cons.prems(2,3,4)] show ?thesis unfolding e .
  qed
qed

lemma query_query_keys: "query h u v = concat (map h (query_keys u v))"
  by (simp add: query_def query_keys_def Let_def)

lemma query_keys_mem:
  "it \<in> set (query h u v) \<longleftrightarrow> (\<exists>key\<in>set (query_keys u v). it \<in> set (h key))"
  unfolding query_query_keys by auto

lemma trail_item_nearby:
  assumes "(k, q) \<in> set g" "\<not> isDead q" "i + 1 < length (trail q)"
    "indexed_near (trail q ! i) (trail q ! (i + 1)) u v"
  shows "trail_item k q i \<in> set (query (build_hash g h) u v)"
proof -
  from assms(4) obtain key where
    key: "key \<in> set (segment_keys (trail q ! i) (trail q ! (i + 1)))" "key \<in> set (query_keys u v)"
    unfolding indexed_near_def list_ex_iff by blast
  from build_hash_trail_self [OF assms(1,2,3) key(1)] key(2)
  show ?thesis unfolding query_keys_mem by blast
qed

lemma nearby_trail_item:
  assumes "it \<in> set (query (build_hash g clear) u v)" "itype it = Trail"
  shows "\<exists>k q i. (k, q) \<in> set g \<and> \<not> isDead q \<and> i + 1 < length (trail q) \<and>
           it = trail_item k q i \<and> indexed_near (trail q ! i) (trail q ! (i + 1)) u v"
proof -
  from assms(1) obtain key where
    key: "key \<in> set (query_keys u v)" "it \<in> set (build_hash g clear key)"
    unfolding query_keys_mem by blast
  from build_hash_trail_mem [OF key(2) assms(2)]
  obtain k q i where "(k, q) \<in> set g" "\<not> isDead q" "i + 1 < length (trail q)"
    "it = trail_item k q i" "key \<in> set (segment_keys (trail q ! i) (trail q ! (i + 1)))"
    by (auto simp: clear_def)
  then show ?thesis using key(1) unfolding indexed_near_def list_ex_iff by blast
qed

lemma hits_self_own_hit:
  assumes "distinct (map fst g)" "getPlayer g a = Some pa"
    "s \<in> set (query (build_hash g clear) u v)" "hits_self a pc ins pv cp s"
  shows "own_hit (trail pa) pc ins pv cp"
proof -
  have t: "itype s = Trail" "playerId s = a" "\<not> ins" "\<not> isNearExitPoint pc cp" "index_gap pc s"
    "segmentsIntersect pv cp (p1 s) (p2 s)"
    using assms(4) by (simp_all add: hits_self_def)
  from nearby_trail_item [OF assms(3) t(1)] obtain k q i where
    i: "(k, q) \<in> set g" "i + 1 < length (trail q)" "s = trail_item k q i" by blast
  have "k = a" using t(2) i(3) by (simp add: trail_item_def)
  then have "map_of g a = Some q" using assms(1) i(1) by (simp add: map_of_is_SomeI)
  then have q: "q = pa" using assms(2) by (simp add: getPlayer_def)
  have "i \<in> set [0..<length (trail pa) - 1]" using i(2) q by simp
  moreover have "int (length (trail pc)) - int i > 20"
    using t(5) i(3) by (simp add: index_gap_def trail_item_def)
  moreover have "segmentsIntersect pv cp (trail pa ! i) (trail pa ! (i + 1))"
    using t(6) i(3) q by (simp add: trail_item_def)
  ultimately show ?thesis
    using t(3,4) unfolding own_hit_def list_ex_iff by blast
qed

section \<open>One round, in general\<close>

lemma capture_phase_cases:
  assumes "capture_phase p ins pv cp = Some (pc, jc)"
  shows "isDead pc = isDead p \<and> hasWon pc = hasWon p \<and> posx pc = posx p \<and> posy pc = posy p \<and>
         (\<not> jc \<and> territory pc = territory p \<and> score pc = score p \<or>
          jc \<and> \<not> isOutside pc \<and> score pc = Math_floor (calculateArea (territory pc)) \<and>
            3 < length (territory pc) \<and>
            (if ins then Fin 100 < score pc \<and> isFinite (score pc) else score p < score pc))"
proof -
  let ?p1 = "exit_detection p ins pv cp"
  from assms obtain p2 jc2 where
    en: "entry_detection ?p1 ins pv cp = Some (p2, jc2)" and
    lc: "loop_closure p2 ins cp jc2 = Some (pc, jc)"
    by (auto simp: capture_phase_def split: option.splits)
  note E = entry_detection_cases [OF en]
  note L = loop_closure_cases [OF lc]
  show ?thesis
    using E L by (auto simp: committed_def)
qed

lemma collision_phase_self:
  assumes "getPlayer (collision_phase h ident pc jc ins pv cp g) ident = Some p'"
  shows "p' = pc \<or> p' = victory pc \<and> \<not> jc \<and> winThreshold \<le> score pc \<or>
         p' = killPlayer pc \<and> \<not> jc \<and> \<not> winThreshold \<le> score pc \<and> isOutside pc \<and>
           (\<exists>it\<in>set (query h (posx pc) (posy pc)). hits_self ident pc ins pv cp it)"
proof -
  have g0: "getPlayer (AList.update ident pc g) ident = Some pc" by (simp add: getPlayer_update)
  show ?thesis
    using assms collision_loop_self [OF g0, of ins pv cp "query h (posx pc) (posy pc)"]
    by (auto simp: collision_phase_def getPlayer_update split: if_splits)
qed

section \<open>Who can die in a tick\<close>

lemma round_ok_refl: "round_ok h k q q"
  by (simp add: round_ok_def)

lemma round_ok_trans: "round_ok h k q q1 \<Longrightarrow> round_ok h k q1 q' \<Longrightarrow> round_ok h k q q'"
  by (auto simp: round_ok_def split: if_splits)

lemma collision_phase_get_self:
  "\<exists>p'. getPlayer (collision_phase h ident pc jc ins pv cp g) ident = Some p'"
  using collision_loop_self [of "AList.update ident pc g" ident pc ins pv cp "query h (posx pc) (posy pc)"]
  by (simp add: collision_phase_def getPlayer_update)

lemma collision_phase_other:
  assumes "k \<noteq> ident" "getPlayer g k = Some q"
  shows "\<exists>q'. getPlayer (collision_phase h ident pc jc ins pv cp g) k = Some q' \<and>
          (q' = q \<or>
           q' = killPlayer q \<and> isOutside q \<and> \<not> jc \<and> \<not> winThreshold \<le> score pc \<and> isOutside pc \<and>
           (\<exists>it\<in>set (query h (posx pc) (posy pc)). cuts_foreign ident pv cp it \<and> playerId it = k))"
proof (cases "\<not> jc \<and> \<not> winThreshold \<le> score pc \<and> isOutside pc")
  case True
  have g0: "getPlayer (AList.update ident pc g) k = Some q"
    using assms by (simp add: getPlayer_update)
  have e: "collision_phase h ident pc jc ins pv cp g
           = collision_loop ident pc ins pv cp (query h (posx pc) (posy pc)) (AList.update ident pc g)"
    using True by (simp add: collision_phase_def)
  show ?thesis
    unfolding e
    using collision_loop_other [OF assms(1) g0, of pc ins pv cp "query h (posx pc) (posy pc)"] True
    by blast
next
  case False
  then have "getPlayer (collision_phase h ident pc jc ins pv cp g) k = Some q"
    using assms by (auto simp: collision_phase_def getPlayer_update)
  then show ?thesis by simp
qed

lemma check_player_step:
  assumes "check_player h ident g = Some g'" "getPlayer g k = Some q"
  shows "\<exists>q'. getPlayer g' k = Some q' \<and> round_ok h k q q'"
proof (cases "k = ident")
  case True
  show ?thesis
  proof (cases "isDead q")
    case True
    then have "g' = g" using assms \<open>k = ident\<close> by (simp add: check_player_def)
    then show ?thesis using assms(2) by (simp add: round_ok_refl)
  next
    case False
    let ?ins = "isPointInPolygon (currentPos_of q) (territory q)"
    from assms False \<open>k = ident\<close> obtain pc jc where
      cp: "capture_phase q ?ins (prevPos_of q) (currentPos_of q) = Some (pc, jc)" and
      g': "g' = collision_phase h ident pc jc ?ins (prevPos_of q) (currentPos_of q) g"
      by (auto simp: check_player_def Let_def split: option.splits)
    from collision_phase_get_self obtain p' where
      p': "getPlayer (collision_phase h ident pc jc ?ins (prevPos_of q) (currentPos_of q) g) ident = Some p'"
      by blast
    have d: "\<not> isDead pc" using capture_phase_cases [OF cp] False by simp
    from collision_phase_self [OF p']
    have "round_ok h k q p'"
    proof (elim disjE conjE bexE)
      assume "p' = pc"
      then show ?thesis using d False by (simp add: round_ok_def)
    next
      assume "p' = victory pc"
      then show ?thesis using d False by (simp add: round_ok_def victory_def Let_def)
    next
      fix it
      assume a: "p' = killPlayer pc" "isOutside pc"
        "it \<in> set (query h (posx pc) (posy pc))"
        "hits_self ident pc ?ins (prevPos_of q) (currentPos_of q) it"
      have "has_trail_item h k"
        using query_in_hash [OF a(3)] a(4) \<open>k = ident\<close>
        by (auto simp: has_trail_item_def hits_self_def)
      then show ?thesis using a(1,2) False by (simp add: round_ok_def)
    qed
    then show ?thesis using p' g' \<open>k = ident\<close> by simp
  qed
next
  case False
  show ?thesis
  proof (cases "g' = g")
    case True
    then show ?thesis using assms(2) by (simp add: round_ok_refl)
  next
    case ne: False
    from assms(1) ne obtain p pc jc ins pv cp where
      g': "g' = collision_phase h ident pc jc ins pv cp g"
      by (auto simp: check_player_def Let_def split: option.splits if_splits)
    from collision_phase_other [OF False assms(2), of h pc jc ins pv cp]
    obtain q' where q': "getPlayer g' k = Some q'"
      "q' = q \<or> q' = killPlayer q \<and> isOutside q \<and>
         (\<exists>it\<in>set (query h (posx pc) (posy pc)). cuts_foreign ident pv cp it \<and> playerId it = k)"
      unfolding g' by blast
    have "round_ok h k q q'"
      using q'(2)
    proof (elim disjE conjE bexE)
      assume "q' = q"
      then show ?thesis by (simp add: round_ok_refl)
    next
      fix it
      assume a: "q' = killPlayer q" "isOutside q" "it \<in> set (query h (posx pc) (posy pc))"
        "cuts_foreign ident pv cp it" "playerId it = k"
      have "has_trail_item h k"
        using query_in_hash [OF a(3)] a(4,5) by (auto simp: has_trail_item_def cuts_foreign_def)
      then show ?thesis using a(1,2) by (simp add: round_ok_def)
    qed
    then show ?thesis using q'(1) by blast
  qed
qed

lemma check_players_step:
  "check_players h idents g = Some g' \<Longrightarrow> getPlayer g k = Some q \<Longrightarrow>
   \<exists>q'. getPlayer g' k = Some q' \<and> round_ok h k q q'"
proof (induction idents arbitrary: g q)
  case Nil
  then show ?case by (simp add: round_ok_refl)
next
  case (Cons ident idents)
  from Cons.prems(1) obtain g1 where
    g1: "check_player h ident g = Some g1" "check_players h idents g1 = Some g'"
    by (auto split: option.splits)
  from check_player_step [OF g1(1) Cons.prems(2)] obtain q1 where
    q1: "getPlayer g1 k = Some q1" "round_ok h k q q1" by blast
  from Cons.IH [OF g1(2) q1(1)] obtain q' where
    q': "getPlayer g' k = Some q'" "round_ok h k q1 q'" by blast
  show ?case using q'(1) round_ok_trans [OF q1(2) q'(2)] by blast
qed

text \<open>The rounds of other players leave a player as it was, or dead.\<close>

lemma check_player_before:
  assumes "check_player h ident g = Some g'" "k \<noteq> ident" "getPlayer g k = Some q"
  shows "\<exists>q'. getPlayer g' k = Some q' \<and> (q' = q \<or> isDead q')"
proof (cases "g' = g")
  case True
  then show ?thesis using assms(3) by simp
next
  case False
  from assms(1) False obtain pc jc ins pv cp where
    g': "g' = collision_phase h ident pc jc ins pv cp g"
    by (auto simp: check_player_def Let_def split: option.splits if_splits)
  from collision_phase_other [OF assms(2,3), of h pc jc ins pv cp]
  show ?thesis unfolding g' by auto
qed

lemma check_players_before:
  "check_players h idents g = Some g' \<Longrightarrow> k \<notin> set idents \<Longrightarrow> getPlayer g k = Some q \<Longrightarrow>
   \<exists>q'. getPlayer g' k = Some q' \<and> (q' = q \<or> isDead q')"
proof (induction idents arbitrary: g q)
  case Nil
  then show ?case by simp
next
  case (Cons ident idents)
  from Cons.prems(1) obtain g1 where
    g1: "check_player h ident g = Some g1" "check_players h idents g1 = Some g'"
    by (auto split: option.splits)
  have ne: "k \<noteq> ident" "k \<notin> set idents" using Cons.prems(2) by simp_all
  from check_player_before [OF g1(1) ne(1) Cons.prems(3)] obtain q1 where
    q1: "getPlayer g1 k = Some q1" "q1 = q \<or> isDead q1" by blast
  from Cons.IH [OF g1(2) ne(2) q1(1)] obtain q' where
    q': "getPlayer g' k = Some q'" "q' = q1 \<or> isDead q'" by blast
  show ?case using q' q1(2) by auto
qed

section \<open>Entry-based capture\<close>

text \<open>
  Claim C5: a live player that is outside (flag \<open>isOutside\<close>), stands inside its territory, has
  an exit point, a trail of more than two points and an exit edge of at least \<open>-1\<close> attempts a
  capture in its round.  The round returns; the capture polygon \<open>poly\<close> is computed and turned
  into the new territory \<open>entry_newTerritory poly\<close>.  In every case the trail state is cleared.
  The commit happens exactly when all coordinates are finite, there are more than 3 vertices, and
  the floor of the area is finite and above 100; it sets the territory, the score (the floor of
  the area), the flag \<open>territoryChanged\<close> and the timer 0.5.  Otherwise, and in particular when a
  coordinate is not finite, there are fewer than 4 vertices or the area is not a finite number
  above 100, territory and score are as before.  The other players are untouched.
\<close>

theorem entry_capture_commit:
  assumes "getPlayer g ident = Some p" "\<not> isDead p" "isOutside p"
    "isPointInPolygon (currentPos_of p) (territory p)"
    "exitPoint p = Some exitPt" "2 < length (trail p)" "- 1 \<le> exitEdgeIndex p"
  shows "\<exists>poly p'.
      computeCapture (territory p) (trail p) exitPt (exitEdgeIndex p)
        (fst (entry_hit p (prevPos_of p) (currentPos_of p)))
        (snd (entry_hit p (prevPos_of p) (currentPos_of p))) = Some (Inr poly) \<and>
      check_player h ident g = Some (AList.update ident p' g) \<and>
      trail p' = [] \<and> \<not> isOutside p' \<and> exitPoint p' = None \<and>
      (if list_all finite_point (entry_newTerritory poly) \<and> 3 < length (entry_newTerritory poly) \<and>
          Fin 100 < Math_floor (calculateArea (entry_newTerritory poly)) \<and>
          isFinite (Math_floor (calculateArea (entry_newTerritory poly)))
       then territory p' = entry_newTerritory poly \<and>
            score p' = Math_floor (calculateArea (entry_newTerritory poly)) \<and>
            territoryChanged p' \<and> invulnerableTimer p' = Fin 0.5
       else territory p' = territory p \<and> score p' = score p) \<and>
      (\<not> list_all finite_point (entry_newTerritory poly) \<or> length (entry_newTerritory poly) < 4 \<or>
       \<not> (Fin 100 < calculateArea (entry_newTerritory poly) \<and>
          isFinite (calculateArea (entry_newTerritory poly)))
       \<longrightarrow> territory p' = territory p \<and> score p' = score p)"
proof -
  have ne: "territory p \<noteq> []" using assms(4) by auto
  from entry_hit_range [OF ne, of "prevPos_of p" "currentPos_of p"] assms(7)
  obtain poly where poly:
    "computeCapture (territory p) (trail p) exitPt (exitEdgeIndex p)
        (fst (entry_hit p (prevPos_of p) (currentPos_of p)))
        (snd (entry_hit p (prevPos_of p) (currentPos_of p))) = Some (Inr poly)"
    using computeCapture_returns by blast
  let ?nt = "entry_newTerritory poly"
  let ?A = "Math_floor (calculateArea ?nt)"
  let ?valid = "list_all finite_point ?nt \<and> 3 < length ?nt \<and> Fin 100 < ?A \<and> isFinite ?A"
  let ?p' = "entry_result p (Inr poly)"
  have cp: "check_player h ident g = Some (AList.update ident ?p' g)"
    using assms(1-6) poly by (rule check_player_entry)
  have tv: "try_capture p entry_commit (Inr poly) = (commit p ?nt ?A, True)" if "?valid"
    by (subst try_capture_entry) (rule if_P [OF that])
  have tn: "try_capture p entry_commit (Inr poly) = (p, False)" if "\<not> ?valid"
    by (subst try_capture_entry) (rule if_not_P [OF that])
  have f: "trail ?p' = []" "\<not> isOutside ?p'" "exitPoint ?p' = None"
    by (simp_all add: entry_result_def Let_def try_capture_entry clear_trail_state_def victory_def commit_def)
  have v: "territory ?p' = ?nt \<and> score ?p' = ?A \<and> territoryChanged ?p' \<and> invulnerableTimer ?p' = Fin 0.5"
    if "?valid"
    by (simp add: entry_result_def Let_def tv [OF that] clear_trail_state_def commit_def)
  have nv: "territory ?p' = territory p \<and> score ?p' = score p" if "\<not> ?valid"
    by (simp add: entry_result_def Let_def tn [OF that] clear_trail_state_def victory_def)
  have inv: "\<not> ?valid"
    if "\<not> list_all finite_point ?nt \<or> length ?nt < 4 \<or>
        \<not> (Fin 100 < calculateArea ?nt \<and> isFinite (calculateArea ?nt))"
    using that floor_gt_100 [of "calculateArea ?nt"] by auto
  have i: "if ?valid
           then territory ?p' = ?nt \<and> score ?p' = ?A \<and> territoryChanged ?p' \<and>
                invulnerableTimer ?p' = Fin 0.5
           else territory ?p' = territory p \<and> score ?p' = score p"
  proof (cases "?valid")
    case True
    show ?thesis by (subst if_P [OF True]) (rule v [OF True])
  next
    case False
    show ?thesis by (subst if_not_P [OF False]) (rule nv [OF False])
  qed
  have j: "\<not> list_all finite_point ?nt \<or> length ?nt < 4 \<or>
        \<not> (Fin 100 < calculateArea ?nt \<and> isFinite (calculateArea ?nt))
        \<longrightarrow> territory ?p' = territory p \<and> score ?p' = score p"
    using inv nv by blast
  show ?thesis
    by (rule exI [of _ poly], rule exI [of _ ?p']) (intro conjI poly cp f i j)
qed

theorem entry_capture_commit_witness:
  "getPlayer [(''a'', p_entry)] ''a'' = Some p_entry \<and> \<not> isDead p_entry \<and> isOutside p_entry \<and>
   isPointInPolygon (currentPos_of p_entry) (territory p_entry) \<and>
   exitPoint p_entry = Some (fpoint 70 0) \<and> 2 < length (trail p_entry) \<and>
   - 1 \<le> exitEdgeIndex p_entry \<and>
   (\<exists>poly p'.
      computeCapture (territory p_entry) (trail p_entry) (fpoint 70 0) (exitEdgeIndex p_entry)
        (fst (entry_hit p_entry (prevPos_of p_entry) (currentPos_of p_entry)))
        (snd (entry_hit p_entry (prevPos_of p_entry) (currentPos_of p_entry))) = Some (Inr poly) \<and>
      check_player clear ''a'' [(''a'', p_entry)] = Some (AList.update ''a'' p' [(''a'', p_entry)]) \<and>
      trail p' = [] \<and> \<not> isOutside p' \<and> exitPoint p' = None \<and>
      (if list_all finite_point (entry_newTerritory poly) \<and> 3 < length (entry_newTerritory poly) \<and>
          Fin 100 < Math_floor (calculateArea (entry_newTerritory poly)) \<and>
          isFinite (Math_floor (calculateArea (entry_newTerritory poly)))
       then territory p' = entry_newTerritory poly \<and>
            score p' = Math_floor (calculateArea (entry_newTerritory poly)) \<and>
            territoryChanged p' \<and> invulnerableTimer p' = Fin 0.5
       else territory p' = territory p_entry \<and> score p' = score p_entry) \<and>
      (\<not> list_all finite_point (entry_newTerritory poly) \<or> length (entry_newTerritory poly) < 4 \<or>
       \<not> (Fin 100 < calculateArea (entry_newTerritory poly) \<and>
          isFinite (calculateArea (entry_newTerritory poly)))
       \<longrightarrow> territory p' = territory p_entry \<and> score p' = score p_entry))"
proof -
  have h: "getPlayer [(''a'', p_entry)] ''a'' = Some p_entry" "\<not> isDead p_entry" "isOutside p_entry"
    "exitPoint p_entry = Some (fpoint 70 0)" "2 < length (trail p_entry)"
    "- 1 \<le> exitEdgeIndex p_entry"
    by (simp_all add: getPlayer_def p_entry_def)
  show ?thesis
    using entry_capture_commit [OF h(1,2,3) p_entry_inside h(4,5,6), of clear] h p_entry_inside
    by (intro conjI)
qed

section \<open>Loop closure in open space\<close>

lemma check_player_loop_returns:
  "\<exists>captured. computeCapture terr trl exitPt e exitPt e = Some captured"
  by (simp add: computeCapture_def Let_def)

text \<open>
  Claim C3: a live player that is outside, not inside its territory, with an exit point, a
  trail of more than 10 points and less than 80 units from its exit point attempts a capture
  whose entry point and entry edge are the exit point and the exit edge.  The round returns, the
  trail state is cleared whether or not the capture commits, and the commit happens only when
  the floor of the new area is above the old score (with more than 3 vertices and no NaN).
\<close>

theorem loop_closure_capture:
  assumes "getPlayer g ident = Some p" "\<not> isDead p" "isOutside p"
    "\<not> isPointInPolygon (currentPos_of p) (territory p)"
    "exitPoint p = Some exitPt" "10 < length (trail p)"
    "distToExit (currentPos_of p) exitPt < Fin 80"
  shows "\<exists>captured p'.
      computeCapture (territory p) (trail p) exitPt (exitEdgeIndex p) exitPt (exitEdgeIndex p)
        = Some captured \<and>
      check_player h ident g = Some (AList.update ident p' g) \<and>
      trail p' = [] \<and> \<not> isOutside p' \<and> exitPoint p' = None \<and>
      (case captured of
         Inl e \<Rightarrow> territory p' = territory p \<and> score p' = score p
       | Inr poly \<Rightarrow>
           if list_all (\<lambda>q. \<not> isNaN (px q) \<and> \<not> isNaN (py q)) (loop_newTerritory poly) \<and>
              3 < length (loop_newTerritory poly) \<and>
              score p < Math_floor (calculateArea (loop_newTerritory poly))
           then territory p' = loop_newTerritory poly \<and>
                score p' = Math_floor (calculateArea (loop_newTerritory poly)) \<and>
                score p < score p' \<and> territoryChanged p' \<and> invulnerableTimer p' = Fin 0.5
           else territory p' = territory p \<and> score p' = score p)"
proof -
  obtain captured where captured:
    "computeCapture (territory p) (trail p) exitPt (exitEdgeIndex p) exitPt (exitEdgeIndex p)
        = Some captured"
    using check_player_loop_returns by blast
  let ?p' = "loop_result p captured"
  have cp: "check_player h ident g = Some (AList.update ident ?p' g)"
    using assms captured by (rule check_player_loop)
  have f: "trail ?p' = []" "\<not> isOutside ?p'" "exitPoint ?p' = None"
    by (cases captured;
        simp add: loop_result_def Let_def try_capture_loop clear_trail_state_def victory_def commit_def)+
  have c: "case captured of
         Inl e \<Rightarrow> territory ?p' = territory p \<and> score ?p' = score p
       | Inr poly \<Rightarrow>
           if list_all (\<lambda>q. \<not> isNaN (px q) \<and> \<not> isNaN (py q)) (loop_newTerritory poly) \<and>
              3 < length (loop_newTerritory poly) \<and>
              score p < Math_floor (calculateArea (loop_newTerritory poly))
           then territory ?p' = loop_newTerritory poly \<and>
                score ?p' = Math_floor (calculateArea (loop_newTerritory poly)) \<and>
                score p < score ?p' \<and> territoryChanged ?p' \<and> invulnerableTimer ?p' = Fin 0.5
           else territory ?p' = territory p \<and> score ?p' = score p"
  proof (cases captured)
    case (Inl e)
    then show ?thesis
      by (simp add: loop_result_def Let_def clear_trail_state_def victory_def)
  next
    case (Inr poly)
    let ?nt = "loop_newTerritory poly"
    let ?A = "Math_floor (calculateArea ?nt)"
    let ?valid = "list_all (\<lambda>q. \<not> isNaN (px q) \<and> \<not> isNaN (py q)) ?nt \<and> 3 < length ?nt \<and> score p < ?A"
    show ?thesis
    proof (cases "?valid")
      case True
      have t: "try_capture p loop_commit (Inr poly) = (commit p ?nt ?A, True)"
        by (subst try_capture_loop) (rule if_P [OF True])
      have "territory ?p' = ?nt \<and> score ?p' = ?A \<and> score p < score ?p' \<and>
            territoryChanged ?p' \<and> invulnerableTimer ?p' = Fin 0.5"
        using True by (simp add: Inr loop_result_def Let_def t clear_trail_state_def commit_def)
      then show ?thesis unfolding Inr sum.case by (subst if_P [OF True])
    next
      case False
      have t: "try_capture p loop_commit (Inr poly) = (p, False)"
        by (subst try_capture_loop) (rule if_not_P [OF False])
      have "territory ?p' = territory p \<and> score ?p' = score p"
        by (simp add: Inr loop_result_def Let_def t clear_trail_state_def victory_def)
      then show ?thesis unfolding Inr sum.case by (subst if_not_P [OF False])
    qed
  qed
  show ?thesis
    by (rule exI [of _ captured], rule exI [of _ ?p']) (intro conjI captured cp f c)
qed

theorem loop_closure_capture_witness:
  "getPlayer [(''a'', p_loop)] ''a'' = Some p_loop \<and> \<not> isDead p_loop \<and> isOutside p_loop \<and>
   \<not> isPointInPolygon (currentPos_of p_loop) (territory p_loop) \<and>
   exitPoint p_loop = Some (fpoint 50 0) \<and> 10 < length (trail p_loop) \<and>
   distToExit (currentPos_of p_loop) (fpoint 50 0) < Fin 80 \<and>
   (\<exists>captured p'.
      computeCapture (territory p_loop) (trail p_loop) (fpoint 50 0) (exitEdgeIndex p_loop)
        (fpoint 50 0) (exitEdgeIndex p_loop) = Some captured \<and>
      check_player clear ''a'' [(''a'', p_loop)] = Some (AList.update ''a'' p' [(''a'', p_loop)]) \<and>
      trail p' = [] \<and> \<not> isOutside p' \<and> exitPoint p' = None \<and>
      (case captured of
         Inl e \<Rightarrow> territory p' = territory p_loop \<and> score p' = score p_loop
       | Inr poly \<Rightarrow>
           if list_all (\<lambda>q. \<not> isNaN (px q) \<and> \<not> isNaN (py q)) (loop_newTerritory poly) \<and>
              3 < length (loop_newTerritory poly) \<and>
              score p_loop < Math_floor (calculateArea (loop_newTerritory poly))
           then territory p' = loop_newTerritory poly \<and>
                score p' = Math_floor (calculateArea (loop_newTerritory poly)) \<and>
                score p_loop < score p' \<and> territoryChanged p' \<and> invulnerableTimer p' = Fin 0.5
           else territory p' = territory p_loop \<and> score p' = score p_loop))"
proof -
  have h: "getPlayer [(''a'', p_loop)] ''a'' = Some p_loop" "\<not> isDead p_loop" "isOutside p_loop"
    "exitPoint p_loop = Some (fpoint 50 0)" "10 < length (trail p_loop)"
    by (simp_all add: getPlayer_def p_loop_def loop_trail_def)
  have o: "\<not> isPointInPolygon (currentPos_of p_loop) (territory p_loop)"
    by (simp add: isPointInPolygon_def p_loop_def currentPos_of_def square100_def fpoint_def
        edge_intersect_def minus_jsnum_def)
  have "sqrt 100 < 80" by (rule real_less_lsqrt) simp_all
  then have d: "distToExit (currentPos_of p_loop) (fpoint 50 0) < Fin 80"
    by (simp add: distToExit_def p_loop_def currentPos_of_def fpoint_def minus_jsnum_def Math_pow2_def)
  show ?thesis
    using loop_closure_capture [OF h(1,2,3) o h(4,5) d, of clear] h o d
    by (intro conjI)
qed

section \<open>The area after a capture commit\<close>

lemma p_entry_round:
  "check_player h ''a'' [(''a'', p_entry)]
     = Some [(''a'', clear_trail_state (commit p_entry entry_territory (Fin 9200)))]"
proof -
  have h: "getPlayer [(''a'', p_entry)] ''a'' = Some p_entry" "\<not> isDead p_entry" "isOutside p_entry"
    "exitPoint p_entry = Some (fpoint 70 0)" "2 < length (trail p_entry)"
    by (simp_all add: getPlayer_def p_entry_def)
  have c: "computeCapture (territory p_entry) (trail p_entry) (fpoint 70 0) (exitEdgeIndex p_entry)
       (fst (entry_hit p_entry (prevPos_of p_entry) (currentPos_of p_entry)))
       (snd (entry_hit p_entry (prevPos_of p_entry) (currentPos_of p_entry))) = Some (Inr entry_captured)"
    unfolding p_entry_hit using p_entry_computeCapture by (simp add: p_entry_def)
  have r: "entry_result p_entry (Inr entry_captured)
         = clear_trail_state (commit p_entry entry_territory (Fin 9200))"
    by (simp add: entry_result_def Let_def try_capture_def p_entry_commit)
  show ?thesis
    using check_player_entry [OF h(1,2,3) p_entry_inside h(4,5) c, of h] by (simp add: r)
qed

lemma square100_area: "calculateArea square100 = Fin 10000"
  by (simp add: calculateArea_def fpoint_def minus_jsnum_def Let_def square100_def)

text \<open>
  Claim C1, as amended: when the round of a live player replaces its territory, the new score is
  the floor of the new area and the new territory has more than 3 vertices.  After an entry-based
  capture (the player stands inside its territory) the new score is a finite number above 100;
  no growth is promised.  After a loop closure in open space the new score is strictly above the
  old score, and the new area is strictly above the old area when the old score was the floor of
  the old area.
\<close>

theorem capture_commit_area:
  assumes "getPlayer g ident = Some p" "\<not> isDead p" "check_player h ident g = Some g'"
    "getPlayer g' ident = Some p'" "territory p' \<noteq> territory p"
  shows "score p' = Math_floor (calculateArea (territory p')) \<and> 3 < length (territory p') \<and>
     (if isPointInPolygon (currentPos_of p) (territory p)
      then Fin 100 < score p' \<and> isFinite (score p')
      else score p < score p' \<and>
           (score p = Math_floor (calculateArea (territory p))
            \<longrightarrow> calculateArea (territory p) < calculateArea (territory p')))"
proof -
  let ?ins = "isPointInPolygon (currentPos_of p) (territory p)"
  from assms(1,2,3) obtain pc jc where
    cp: "capture_phase p ?ins (prevPos_of p) (currentPos_of p) = Some (pc, jc)" and
    g': "g' = collision_phase h ident pc jc ?ins (prevPos_of p) (currentPos_of p) g"
    by (auto simp: check_player_def Let_def split: option.splits)
  from collision_phase_self [of h ident pc jc ?ins "prevPos_of p" "currentPos_of p" g p'] assms(4) g'
  have same: "territory p' = territory pc" "score p' = score pc" by auto
  then have "territory pc \<noteq> territory p" using assms(5) by simp
  with capture_phase_cases [OF cp]
  have c: "score pc = Math_floor (calculateArea (territory pc))" "3 < length (territory pc)"
    "if ?ins then Fin 100 < score pc \<and> isFinite (score pc) else score p < score pc"
    by auto
  have "calculateArea (territory p) < calculateArea (territory p')"
    if "\<not> ?ins" "score p = Math_floor (calculateArea (territory p))"
  proof -
    have "score p < score pc" using c(3) that(1) by simp
    then have "Math_floor (calculateArea (territory p)) < Math_floor (calculateArea (territory pc))"
      using that(2) c(1) by simp
    then show ?thesis unfolding same by (rule floor_less_imp_less)
  qed
  then show ?thesis using c same by auto
qed

theorem capture_commit_area_witness:
  "getPlayer [(''a'', p_entry)] ''a'' = Some p_entry \<and> \<not> isDead p_entry \<and>
   check_player clear ''a'' [(''a'', p_entry)]
     = Some [(''a'', clear_trail_state (commit p_entry entry_territory (Fin 9200)))] \<and>
   getPlayer [(''a'', clear_trail_state (commit p_entry entry_territory (Fin 9200)))] ''a''
     = Some (clear_trail_state (commit p_entry entry_territory (Fin 9200))) \<and>
   territory (clear_trail_state (commit p_entry entry_territory (Fin 9200))) \<noteq> territory p_entry \<and>
   isPointInPolygon (currentPos_of p_entry) (territory p_entry) \<and>
   score (clear_trail_state (commit p_entry entry_territory (Fin 9200)))
     = Math_floor (calculateArea (territory (clear_trail_state (commit p_entry entry_territory (Fin 9200))))) \<and>
   Fin 100 < score (clear_trail_state (commit p_entry entry_territory (Fin 9200))) \<and>
   isFinite (score (clear_trail_state (commit p_entry entry_territory (Fin 9200))))"
proof -
  let ?p' = "clear_trail_state (commit p_entry entry_territory (Fin 9200))"
  have h: "getPlayer [(''a'', p_entry)] ''a'' = Some p_entry" "\<not> isDead p_entry"
    "getPlayer [(''a'', ?p')] ''a'' = Some ?p'"
    by (simp_all add: getPlayer_def p_entry_def)
  have t: "territory ?p' \<noteq> territory p_entry"
    by (simp add: p_entry_def entry_territory_def square100_def)
  show ?thesis
    using capture_commit_area [OF h(1,2) p_entry_round [of clear] h(3) t] h t p_entry_inside
      p_entry_round [of clear]
    by (simp add: entry_territory_area)
qed

text \<open>
  Claim C1 as stated fails for the entry-based capture: the player \<open>p_entry\<close> leaves its square
  of area 10000 at \<open>(70, 0)\<close> and re-enters at \<open>(30, 0)\<close> on the same edge; the larger of the two
  candidates has area 9200, and it is committed.
\<close>

theorem capture_area_counterexample:
  "map_option (map (\<lambda>(k, q). territory q \<noteq> territory p_entry \<and>
                              calculateArea (territory q) < calculateArea (territory p_entry)))
     (checkCaptureAndCollisions clear [(''a'', p_entry)]) = Some [True]"
proof -
  have "territory (clear_trail_state (commit p_entry entry_territory (Fin 9200))) \<noteq> territory p_entry"
    by (simp add: p_entry_def entry_territory_def square100_def)
  moreover have "territory p_entry = square100" by (simp add: p_entry_def)
  ultimately show ?thesis
    by (simp add: checkCaptureAndCollisions_def p_entry_round entry_territory_area square100_area)
qed

section \<open>The victory threshold\<close>

subsection \<open>The threshold of the code\<close>

lemma winThreshold_value: "winThreshold = Fin (0.99 * (pi * 2499\<^sup>2))"
  by (simp add: winThreshold_def worldArea_def worldRadius_def WORLD_WIDTH_def Math_PI_def
      minus_jsnum_def power2_eq_square)

subsection \<open>A player at the centre of an almost full arena\<close>

lemma p_win_inside: "isPointInPolygon (currentPos_of p_win) (territory p_win)"
  by (simp add: isPointInPolygon_def p_win_def currentPos_of_def arena32_def fpoint_def
      edge_intersect_def minus_jsnum_def)

lemma p_win_capture_phase:
  "capture_phase p_win True (prevPos_of p_win) (currentPos_of p_win) = Some (p_win, False)"
  by (simp add: capture_phase_def exit_detection_def entry_detection_def loop_closure_def p_win_def)

lemma p_win_score: "winThreshold \<le> score p_win"
proof -
  have "0.99 * (pi * 2499\<^sup>2) \<le> 0.99 * (3.142 * 2499\<^sup>2)"
    using pi_upper by simp
  also have "\<dots> \<le> 19431664" by simp
  finally show ?thesis by (simp add: winThreshold_value p_win_def)
qed

lemma p_win_round: "check_player h ''w'' [(''w'', p_win)] = Some [(''w'', victory p_win)]"
proof -
  have g: "getPlayer [(''w'', p_win)] ''w'' = Some p_win" by (simp add: getPlayer_def)
  have d: "\<not> isDead p_win" by (simp add: p_win_def)
  show ?thesis
    using g d p_win_inside p_win_score
    by (simp add: check_player_def Let_def p_win_capture_phase collision_phase_def)
qed

lemma arena32_area: "calculateArea arena32 = Fin 19431664"
  by (simp add: calculateArea_def fpoint_def minus_jsnum_def Let_def arena32_def)

subsection \<open>A loop around the whole arena\<close>

lemma those_map_Some: "those (map Some xs) = Some xs"
  by (induction xs) simp_all

lemma p_final_outside: "\<not> isPointInPolygon (currentPos_of p_final) (territory p_final)"
  by (simp add: isPointInPolygon_def p_final_def currentPos_of_def top_square_def fpoint_def
      edge_intersect_def minus_jsnum_def)

lemma p_final_dist: "distToExit (currentPos_of p_final) (fpoint 2500 4900) < Fin 80"
proof -
  have "sqrt 3400 < 80" by (rule real_less_lsqrt) simp_all
  then show ?thesis
    by (simp add: distToExit_def p_final_def currentPos_of_def fpoint_def minus_jsnum_def Math_pow2_def)
qed

lemma final_loop_area:
  "getPolygonArea ([fpoint 2500 4900, fpoint 2500 4900] @ ring32 @ [fpoint 2500 4900]) = Fin 19453721"
  by (simp add: getPolygonArea_def getSignedPolygonArea_def fpoint_def minus_jsnum_def Let_def ring32_def)

lemma final_captured_area: "getPolygonArea final_captured = Fin 19463721"
  by (simp add: getPolygonArea_def getSignedPolygonArea_def fpoint_def minus_jsnum_def Let_def
      ring32_def final_captured_def)

lemma p_final_computeCapture:
  "computeCapture top_square (fpoint 2500 4900 # ring32) (fpoint 2500 4900) 2 (fpoint 2500 4900) 2
   = Some (Inr final_captured)"
proof -
  let ?loop = "[fpoint 2500 4900, fpoint 2500 4900] @ ring32 @ [fpoint 2500 4900]"
  have arcB: "sameEdge_arcB top_square 3 4 =
      map Some [fpoint 2450 4900, fpoint 2450 4800, fpoint 2550 4800, fpoint 2550 4900]"
    by (simp add: top_square_def js_nth_def signed_modulo_int_def numeral_nat)
  have l: "length top_square = 4" by (simp add: top_square_def)
  have e: "?loop @ [fpoint 2450 4900, fpoint 2450 4800, fpoint 2550 4800, fpoint 2550 4900] = final_captured"
    by (simp add: final_captured_def)
  have ha: "getPolygonArea_holes (map Some ?loop) = Inr (Fin 19453721)"
    by (simp only: getPolygonArea_holes_def those_map_Some option.case final_loop_area)
  have hb: "getPolygonArea_holes (map Some final_captured) = Inr (Fin 19463721)"
    by (simp only: getPolygonArea_holes_def those_map_Some option.case final_captured_area)
  have c: "choose_candidate (map Some ?loop) (map Some final_captured) = Inr final_captured"
    unfolding choose_candidate_def ha hb by (simp add: comp_def)
  have "computeCapture top_square (fpoint 2500 4900 # ring32) (fpoint 2500 4900) 2 (fpoint 2500 4900) 2
        = Some (choose_candidate (map Some ?loop) (map Some ?loop @ sameEdge_arcB top_square 3 4))"
    unfolding computeCapture_def Let_def l by (simp add: signed_modulo_int_def)
  also have "map Some ?loop @ sameEdge_arcB top_square 3 4 = map Some final_captured"
    unfolding arcB e [symmetric] by simp
  finally show ?thesis using c by simp
qed

lemma p_final_newTerritory: "loop_newTerritory final_captured = final_territory"
proof -
  have s: "simplifyPolygon final_captured (Fin 1) = final_territory"
    by (simp add: simplifyPolygon_def final_captured_def final_territory_def fpoint_def ring32_def
        minus_jsnum_def Let_def)
  have "length final_territory = 38" by (simp add: final_territory_def ring32_def)
  then show ?thesis by (simp add: loop_newTerritory_def Let_def s)
qed

lemma final_territory_area: "calculateArea final_territory = Fin 19463721"
  by (simp add: calculateArea_def fpoint_def minus_jsnum_def Let_def ring32_def final_territory_def)

lemma p_final_round:
  "check_player h ''f'' [(''f'', p_final)]
     = Some [(''f'', clear_trail_state (commit p_final final_territory (Fin 19463721)))]"
proof -
  have h: "getPlayer [(''f'', p_final)] ''f'' = Some p_final" "\<not> isDead p_final" "isOutside p_final"
    "exitPoint p_final = Some (fpoint 2500 4900)" "10 < length (trail p_final)"
    by (simp_all add: getPlayer_def p_final_def ring32_def)
  have c: "computeCapture (territory p_final) (trail p_final) (fpoint 2500 4900) (exitEdgeIndex p_final)
       (fpoint 2500 4900) (exitEdgeIndex p_final) = Some (Inr final_captured)"
    using p_final_computeCapture by (simp add: p_final_def)
  have v: "list_all (\<lambda>q. \<not> isNaN (px q) \<and> \<not> isNaN (py q)) final_territory"
    by (simp add: final_territory_def ring32_def fpoint_def isNaN_def)
  have n: "3 < length final_territory" by (simp add: final_territory_def ring32_def)
  have s: "score p_final < Fin 19463721" by (simp add: p_final_def)
  have t: "try_capture p_final loop_commit (Inr final_captured)
           = (commit p_final final_territory (Fin 19463721), True)"
    unfolding try_capture_loop p_final_newTerritory final_territory_area
    using v n s by simp
  have r: "loop_result p_final (Inr final_captured)
         = clear_trail_state (commit p_final final_territory (Fin 19463721))"
    by (simp add: loop_result_def Let_def t)
  show ?thesis
    using check_player_loop [OF h(1,2,3) p_final_outside h(4,5) p_final_dist c, of h] by (simp add: r)
qed

text \<open>
  Claim C2, as amended: the threshold of the code is 0.99 \<open>\<pi>\<close> times the square of 2499 (the radius is half the
  world width minus one).  When the round of a live player commits no capture and its score has
  reached this threshold, the round returns with \<^verbatim>\<open>hasWon\<close> set, the player not outside and
  not dead, score and territory unchanged, and the trail emptied if the player was outside (or
  had none).
\<close>

theorem victory_latch:
  assumes "getPlayer g ident = Some p" "\<not> isDead p"
    "capture_phase p (isPointInPolygon (currentPos_of p) (territory p)) (prevPos_of p)
       (currentPos_of p) = Some (pc, False)"
    "winThreshold \<le> score p"
  shows "winThreshold = Fin (0.99 * (pi * 2499\<^sup>2)) \<and>
         check_player h ident g = Some (AList.update ident (victory pc) g) \<and>
         hasWon (victory pc) \<and> \<not> isOutside (victory pc) \<and> \<not> isDead (victory pc) \<and>
         (isOutside pc \<or> trail pc = [] \<longrightarrow> trail (victory pc) = []) \<and>
         score (victory pc) = score p \<and> territory (victory pc) = territory p"
proof -
  from capture_phase_cases [OF assms(3)]
  have f: "isDead pc = isDead p" "score pc = score p" "territory pc = territory p" by auto
  have "check_player h ident g = Some (AList.update ident (victory pc) g)"
    using assms f by (simp add: check_player_def Let_def collision_phase_def)
  moreover have "isOutside pc \<or> trail pc = [] \<longrightarrow> trail (victory pc) = []"
    by (auto simp: victory_def Let_def)
  ultimately show ?thesis
    using f assms(2) winThreshold_value by simp
qed

theorem victory_latch_witness:
  "getPlayer [(''w'', p_win)] ''w'' = Some p_win \<and> \<not> isDead p_win \<and>
   capture_phase p_win (isPointInPolygon (currentPos_of p_win) (territory p_win)) (prevPos_of p_win)
     (currentPos_of p_win) = Some (p_win, False) \<and>
   winThreshold \<le> score p_win \<and>
   winThreshold = Fin (0.99 * (pi * 2499\<^sup>2)) \<and>
   check_player clear ''w'' [(''w'', p_win)] = Some (AList.update ''w'' (victory p_win) [(''w'', p_win)]) \<and>
   hasWon (victory p_win) \<and> \<not> isOutside (victory p_win) \<and> \<not> isDead (victory p_win) \<and>
   trail (victory p_win) = [] \<and>
   score (victory p_win) = score p_win \<and> territory (victory p_win) = territory p_win"
proof -
  have h: "getPlayer [(''w'', p_win)] ''w'' = Some p_win" "\<not> isDead p_win" "trail p_win = []"
    by (simp_all add: getPlayer_def p_win_def)
  have c: "capture_phase p_win (isPointInPolygon (currentPos_of p_win) (territory p_win))
     (prevPos_of p_win) (currentPos_of p_win) = Some (p_win, False)"
    using p_win_inside p_win_capture_phase by simp
  show ?thesis
    using victory_latch [OF h(1,2) c p_win_score, of clear] h c p_win_score by simp
qed

text \<open>
  Two rounds against the claim as stated.  The first player owns 19431664 square units, less
  than 0.99 \<open>\<pi>\<close> times the square of 2500, and its round sets \<^verbatim>\<open>hasWon\<close>.  The second closes a loop around the
  arena: its round commits a territory of 19463721 square units, more than 0.99 \<open>\<pi>\<close> times the
  square of 2500, and returns with \<^verbatim>\<open>hasWon\<close> still unset, because a round that captures skips the rest of the
  player's turn.
\<close>

theorem victory_threshold_counterexample:
  "\<not> isDead p_win \<and> \<not> hasWon p_win \<and>
   score p_win = Math_floor (calculateArea (territory p_win)) \<and>
   score p_win < Fin (0.99 * (pi * 2500\<^sup>2)) \<and>
   map_option (map (\<lambda>(k, q). hasWon q)) (check_player clear ''w'' [(''w'', p_win)]) = Some [True] \<and>
   \<not> isDead p_final \<and>
   map_option (map (\<lambda>(k, q). (score q, score q = Math_floor (calculateArea (territory q)),
                               isDead q, hasWon q)))
     (check_player clear ''f'' [(''f'', p_final)]) = Some [(Fin 19463721, True, False, False)] \<and>
   Fin (0.99 * (pi * 2500\<^sup>2)) \<le> Fin 19463721"
proof -
  have a: "\<not> isDead p_win" "\<not> hasWon p_win" "\<not> isDead p_final" "score p_win = Fin 19431664"
    "territory p_win = arena32" "\<not> hasWon p_final"
    by (simp_all add: p_win_def p_final_def)
  have b: "score p_win = Math_floor (calculateArea (territory p_win))"
    by (simp add: a arena32_area)
  have "(19431664::real) < 0.99 * (3.141 * 2500\<^sup>2)" by simp
  also have "\<dots> < 0.99 * (pi * 2500\<^sup>2)" using pi_lower by simp
  finally have c: "score p_win < Fin (0.99 * (pi * 2500\<^sup>2))" by (simp add: a)
  have "check_player clear ''w'' [(''w'', p_win)] = Some [(''w'', victory p_win)]"
    by (rule p_win_round)
  then have d: "map_option (map (\<lambda>(k, q). hasWon q)) (check_player clear ''w'' [(''w'', p_win)]) = Some [True]"
    by (simp add: victory_def Let_def)
  have e: "map_option (map (\<lambda>(k, q). (score q, score q = Math_floor (calculateArea (territory q)),
                               isDead q, hasWon q)))
     (check_player clear ''f'' [(''f'', p_final)]) = Some [(Fin 19463721, True, False, False)]"
    by (simp add: p_final_round clear_trail_state_def commit_def final_territory_area a)
  have "0.99 * (pi * 2500\<^sup>2) \<le> 0.99 * (3.142 * 2500\<^sup>2)" using pi_upper by simp
  also have "\<dots> \<le> (19463721::real)" by simp
  finally have f: "Fin (0.99 * (pi * 2500\<^sup>2)) \<le> Fin 19463721" by simp
  show ?thesis by (intro conjI a(1,2,3) b c d e f)
qed

section \<open>A trail cut by another player\<close>

lemma short_trail_no_self_hit:
  "length (trail p) \<le> 20 \<Longrightarrow> \<not> hits_self ident p ins pv cp it"
  by (auto simp: hits_self_def index_gap_def split: option.splits)

lemma below_threshold: "\<not> winThreshold \<le> Fin 10000"
proof -
  have "(10000::real) < 0.99 * (3 * 2499\<^sup>2)" by simp
  also have "\<dots> < 0.99 * (pi * 2499\<^sup>2)" using pi_lower by simp
  finally show ?thesis by (simp add: winThreshold_value)
qed

lemma p_cut_outside: "\<not> isPointInPolygon (currentPos_of p_cut) (territory p_cut)"
  by (simp add: isPointInPolygon_def p_cut_def currentPos_of_def square100_def fpoint_def
      edge_intersect_def minus_jsnum_def)

lemma p_cut_capture_phase:
  "capture_phase p_cut False (prevPos_of p_cut) (currentPos_of p_cut) = Some (p_cut, False)"
  by (simp add: capture_phase_def exit_detection_def entry_detection_def loop_closure_def p_cut_def)

lemma cut_item_crossed: "cuts_foreign ''a'' (prevPos_of p_cut) (currentPos_of p_cut) cut_item"
  by (simp add: cuts_foreign_def cut_item_def segmentsIntersect_def getSegmentIntersection_def
      p_cut_def prevPos_of_def currentPos_of_def fpoint_def js_eq_def minus_jsnum_def Let_def)

lemma cut_item_nearby:
  "cut_item \<in> set (query (build_hash cut_game clear) (posx p_cut) (posy p_cut))"
proof -
  have m: "(''b'', p_victim) \<in> set cut_game" by (simp add: cut_game_def)
  have d: "\<not> isDead p_victim" "7 + 1 < length (trail p_victim)"
    by (simp_all add: p_victim_def victim_trail_def)
  have t: "trail p_victim ! 7 = fpoint 55 (- 25)" "trail p_victim ! (7 + 1) = fpoint 45 (- 25)"
    by (simp_all add: p_victim_def victim_trail_def)
  have k: "getKey (px (fpoint 55 (- 25))) (py (fpoint 55 (- 25))) = (Fin 0, Fin (- 1))"
    by (simp add: getKey_def fpoint_def cellSize_def)
  have "cut_item \<in> set (build_hash cut_game clear (Fin 0, Fin (- 1)))"
    using build_hash_self [OF m d, of clear] unfolding t k by (simp add: cut_item_def)
  moreover have "Math_floor (posx p_cut / cellSize) = Fin 0" "Math_floor (posy p_cut / cellSize) = Fin (- 1)"
    by (simp_all add: p_cut_def cellSize_def)
  ultimately show ?thesis
    unfolding query_mem by (intro bexI [of _ 0]) simp_all
qed

lemma cut_round:
  "check_player (build_hash cut_game clear) ''a'' cut_game =
     Some (collision_loop ''a'' p_cut False (prevPos_of p_cut) (currentPos_of p_cut)
            (query (build_hash cut_game clear) (posx p_cut) (posy p_cut)) cut_game)"
proof -
  have g: "getPlayer cut_game ''a'' = Some p_cut" by (simp add: getPlayer_def cut_game_def)
  have u: "AList.update ''a'' p_cut cut_game = cut_game" by (simp add: cut_game_def)
  have f: "\<not> isDead p_cut" "isOutside p_cut" "score p_cut = Fin 10000"
    by (simp_all add: p_cut_def)
  show ?thesis
    using g f p_cut_outside below_threshold
    by (simp add: check_player_def Let_def p_cut_capture_phase collision_phase_def u)
qed

lemma cut_round_victim:
  "getPlayer (collision_loop ''a'' p_cut False (prevPos_of p_cut) (currentPos_of p_cut)
            (query (build_hash cut_game clear) (posx p_cut) (posy p_cut)) cut_game) ''b''
   = Some (killPlayer p_victim)"
proof -
  let ?nearby = "query (build_hash cut_game clear) (posx p_cut) (posy p_cut)"
  have g: "getPlayer cut_game ''a'' = Some p_cut" by (simp add: getPlayer_def cut_game_def)
  have s: "length (trail p_cut) \<le> 20" by (simp add: p_cut_def)
  have tw: "takeWhile (\<lambda>it. \<not> hits_self ''a'' p_cut False (prevPos_of p_cut) (currentPos_of p_cut) it)
              ?nearby = ?nearby"
    using short_trail_no_self_hit [OF s] by (simp add: takeWhile_eq_all_conv)
  have m: "cut_item \<in> set (takeWhile (\<lambda>it. \<not> hits_self ''a'' p_cut False (prevPos_of p_cut)
             (currentPos_of p_cut) it) ?nearby)"
    unfolding tw by (rule cut_item_nearby)
  have v: "getPlayer cut_game (playerId cut_item) = Some p_victim"
    by (simp add: getPlayer_def cut_game_def cut_item_def)
  have o: "isOutside p_victim" by (simp add: p_victim_def)
  from collision_loop_victim [OF g m cut_item_crossed v o]
  show ?thesis by (simp add: cut_item_def)
qed

lemma cut_tick:
  "checkCaptureAndCollisions clear cut_game =
     Some (collision_loop ''a'' p_cut False (prevPos_of p_cut) (currentPos_of p_cut)
            (query (build_hash cut_game clear) (posx p_cut) (posy p_cut)) cut_game)"
proof -
  let ?g1 = "collision_loop ''a'' p_cut False (prevPos_of p_cut) (currentPos_of p_cut)
            (query (build_hash cut_game clear) (posx p_cut) (posy p_cut)) cut_game"
  have "check_player (build_hash cut_game clear) ''b'' ?g1 = Some ?g1"
    by (simp add: check_player_def cut_round_victim)
  then show ?thesis
    by (simp add: checkCaptureAndCollisions_def cut_game_def [THEN arg_cong, of "map fst"]
        cut_round)
qed

section \<open>Rounds in which nobody dies\<close>

lemma kill_victim_idle:
  "(\<And>q. getPlayer g k = Some q \<Longrightarrow> \<not> isOutside q) \<Longrightarrow> kill_victim k g = g"
  by (auto simp: kill_victim_def split: option.splits)

lemma collision_loop_idle:
  assumes "\<And>it. \<not> hits_self ident p ins pv cp it"
    "\<And>k q. k \<noteq> ident \<Longrightarrow> getPlayer g k = Some q \<Longrightarrow> \<not> isOutside q"
  shows "collision_loop ident p ins pv cp nearby g = g"
proof (induction nearby)
  case Nil
  then show ?case by simp
next
  case (Cons it nearby)
  have "kill_victim (playerId it) g = g" if "cuts_foreign ident pv cp it"
    using that assms(2) [of "playerId it"] by (intro kill_victim_idle) (auto simp: cuts_foreign_def)
  then show ?case using Cons assms(1) by (simp add: Let_def)
qed

lemma check_player_idle:
  assumes "getPlayer g ident = Some p" "\<not> isDead p" "isOutside p"
    "\<not> isPointInPolygon (currentPos_of p) (territory p)" "length (trail p) \<le> 10"
    "\<not> winThreshold \<le> score p"
    "\<And>k q. k \<noteq> ident \<Longrightarrow> getPlayer g k = Some q \<Longrightarrow> \<not> isOutside q"
  shows "check_player h ident g = Some g"
proof -
  have cp: "capture_phase p False (prevPos_of p) (currentPos_of p) = Some (p, False)"
    using assms(3,5)
    by (auto simp: capture_phase_def exit_detection_def entry_detection_def loop_closure_def
        split: option.splits)
  have u: "AList.update ident p g = g"
    using assms(1) by (simp add: getPlayer_def update_triv)
  have s: "length (trail p) \<le> 20" using assms(5) by simp
  have "collision_loop ident p False (prevPos_of p) (currentPos_of p)
          (query h (posx p) (posy p)) g = g"
    using short_trail_no_self_hit [OF s] assms(7) by (rule collision_loop_idle)
  then show ?thesis
    using assms(1,2,3,4,6) by (simp add: check_player_def Let_def cp collision_phase_def u)
qed

lemma p_entry_check:
  assumes "getPlayer g ident = Some p_entry"
  shows "check_player h ident g
     = Some (AList.update ident (clear_trail_state (commit p_entry entry_territory (Fin 9200))) g)"
proof -
  have h: "\<not> isDead p_entry" "isOutside p_entry"
    "exitPoint p_entry = Some (fpoint 70 0)" "2 < length (trail p_entry)"
    by (simp_all add: p_entry_def)
  have c: "computeCapture (territory p_entry) (trail p_entry) (fpoint 70 0) (exitEdgeIndex p_entry)
       (fst (entry_hit p_entry (prevPos_of p_entry) (currentPos_of p_entry)))
       (snd (entry_hit p_entry (prevPos_of p_entry) (currentPos_of p_entry))) = Some (Inr entry_captured)"
    unfolding p_entry_hit using p_entry_computeCapture by (simp add: p_entry_def)
  have r: "entry_result p_entry (Inr entry_captured)
         = clear_trail_state (commit p_entry entry_territory (Fin 9200))"
    by (simp add: entry_result_def Let_def try_capture_def p_entry_commit)
  show ?thesis
    using check_player_entry [OF assms h(1,2) p_entry_inside h(3,4) c, of h] by (simp add: r)
qed

lemma p_late_outside: "\<not> isPointInPolygon (currentPos_of p_late) (territory p_late)"
  by (simp add: isPointInPolygon_def p_late_def currentPos_of_def fpoint_def
      edge_intersect_def minus_jsnum_def)

lemma p_cross_outside: "\<not> isPointInPolygon (currentPos_of p_cross) (territory p_cross)"
  by (simp add: isPointInPolygon_def p_cross_def currentPos_of_def fpoint_def
      edge_intersect_def minus_jsnum_def)

text \<open>
  Two ticks in which \<open>p_entry\<close> re-enters its territory and commits a capture.  In the first it
  comes first in the map, and the player after it crosses a segment of the trail that it had
  when the hash was built.  In the second its own move crosses the trail of \<open>p_cross\<close>: its
  round has committed a capture and skips the loop over the nearby items.
\<close>

lemma stale_tick:
  "checkCaptureAndCollisions clear [(''b'', p_entry), (''a'', p_late)]
   = Some [(''b'', clear_trail_state (commit p_entry entry_territory (Fin 9200))), (''a'', p_late)]"
proof -
  let ?h = "build_hash [(''b'', p_entry), (''a'', p_late)] clear"
  let ?g1 = "[(''b'', clear_trail_state (commit p_entry entry_territory (Fin 9200))), (''a'', p_late)]"
  have "getPlayer [(''b'', p_entry), (''a'', p_late)] ''b'' = Some p_entry"
    by (simp add: getPlayer_def)
  from p_entry_check [OF this, of ?h]
  have r1: "check_player ?h ''b'' [(''b'', p_entry), (''a'', p_late)] = Some ?g1" by simp
  have g: "getPlayer ?g1 ''a'' = Some p_late" by (simp add: getPlayer_def)
  have f: "\<not> isDead p_late" "isOutside p_late" "length (trail p_late) \<le> 10"
    "\<not> winThreshold \<le> score p_late"
    using below_threshold by (simp_all add: p_late_def)
  have o: "\<And>k q. k \<noteq> ''a'' \<Longrightarrow> getPlayer ?g1 k = Some q \<Longrightarrow> \<not> isOutside q"
    by (auto simp: getPlayer_def clear_trail_state_def split: if_splits)
  have r2: "check_player ?h ''a'' ?g1 = Some ?g1"
    using g f(1,2) p_late_outside f(3,4) o by (rule check_player_idle)
  show ?thesis by (simp add: checkCaptureAndCollisions_def r1 r2)
qed

lemma skipped_tick:
  "checkCaptureAndCollisions clear [(''a'', p_entry), (''b'', p_cross)]
   = Some [(''a'', clear_trail_state (commit p_entry entry_territory (Fin 9200))), (''b'', p_cross)]"
proof -
  let ?h = "build_hash [(''a'', p_entry), (''b'', p_cross)] clear"
  let ?g1 = "[(''a'', clear_trail_state (commit p_entry entry_territory (Fin 9200))), (''b'', p_cross)]"
  have "getPlayer [(''a'', p_entry), (''b'', p_cross)] ''a'' = Some p_entry"
    by (simp add: getPlayer_def)
  from p_entry_check [OF this, of ?h]
  have r1: "check_player ?h ''a'' [(''a'', p_entry), (''b'', p_cross)] = Some ?g1" by simp
  have g: "getPlayer ?g1 ''b'' = Some p_cross" by (simp add: getPlayer_def)
  have f: "\<not> isDead p_cross" "isOutside p_cross" "length (trail p_cross) \<le> 10"
    "\<not> winThreshold \<le> score p_cross"
    using below_threshold by (simp_all add: p_cross_def)
  have o: "\<And>k q. k \<noteq> ''b'' \<Longrightarrow> getPlayer ?g1 k = Some q \<Longrightarrow> \<not> isOutside q"
    by (auto simp: getPlayer_def clear_trail_state_def split: if_splits)
  have r2: "check_player ?h ''b'' ?g1 = Some ?g1"
    using g f(1,2) p_cross_outside f(3,4) o by (rule check_player_idle)
  show ?thesis by (simp add: checkCaptureAndCollisions_def r1 r2)
qed

lemma stale_indexed_near:
  "indexed_near (trail p_entry ! 1) (trail p_entry ! 2) (posx p_late) (posy p_late)"
  by (simp add: indexed_near_def segment_keys_def query_keys_def getKey_def cellSize_def
      p_entry_def p_late_def fpoint_def)

lemma stale_crossing:
  "segmentsIntersect (prevPos_of p_late) (currentPos_of p_late) (trail p_entry ! 1) (trail p_entry ! 2)"
  by (simp add: segmentsIntersect_def getSegmentIntersection_def
      p_late_def p_entry_def prevPos_of_def currentPos_of_def fpoint_def js_eq_def minus_jsnum_def Let_def)

lemma skipped_crossing:
  "segmentsIntersect (prevPos_of p_entry) (currentPos_of p_entry) (trail p_cross ! 2) (trail p_cross ! 3)"
  by (simp add: segmentsIntersect_def getSegmentIntersection_def
      p_cross_def p_entry_def prevPos_of_def currentPos_of_def fpoint_def js_eq_def minus_jsnum_def Let_def)

subsection \<open>Rounds that go through the loop without a victim\<close>

lemma kill_victim_same:
  "getPlayer g k = Some q \<Longrightarrow> killPlayer q = q \<Longrightarrow> kill_victim k g = g"
  by (simp add: kill_victim_def getPlayer_def update_triv)

lemma kill_victim_absent: "getPlayer g k = None \<Longrightarrow> kill_victim k g = g"
  by (simp add: kill_victim_def)

lemma collision_loop_quiet:
  "(\<And>it. it \<in> set nearby \<Longrightarrow> \<not> hits_self ident p ins pv cp it) \<Longrightarrow>
   (\<And>it. it \<in> set nearby \<Longrightarrow> cuts_foreign ident pv cp it \<Longrightarrow> kill_victim (playerId it) g = g) \<Longrightarrow>
   collision_loop ident p ins pv cp nearby g = g"
  by (induction nearby) (simp_all add: Let_def)

lemma collision_loop_break:
  "s \<in> set xs \<Longrightarrow> hits_self ident p ins pv cp s \<Longrightarrow>
   (\<And>x. x \<in> set xs \<Longrightarrow> \<not> cuts_foreign ident pv cp x) \<Longrightarrow>
   collision_loop ident p ins pv cp (xs @ ys) g = AList.update ident (killPlayer p) g"
  by (induction xs) (auto simp: Let_def)

lemma check_player_quiet:
  assumes "getPlayer g ident = Some p" "\<not> isDead p" "isOutside p"
    "\<not> isPointInPolygon (currentPos_of p) (territory p)"
    "capture_phase p False (prevPos_of p) (currentPos_of p) = Some (p, False)"
    "\<not> winThreshold \<le> score p"
    "\<And>it. it \<in> set (query h (posx p) (posy p)) \<Longrightarrow>
          \<not> hits_self ident p False (prevPos_of p) (currentPos_of p) it"
    "\<And>it. it \<in> set (query h (posx p) (posy p)) \<Longrightarrow>
          cuts_foreign ident (prevPos_of p) (currentPos_of p) it \<Longrightarrow>
          kill_victim (playerId it) g = g"
  shows "check_player h ident g = Some g"
proof -
  have u: "AList.update ident p g = g"
    using assms(1) by (simp add: getPlayer_def update_triv)
  have "collision_loop ident p False (prevPos_of p) (currentPos_of p)
          (query h (posx p) (posy p)) g = g"
    using assms(7,8) by (rule collision_loop_quiet)
  then show ?thesis
    using assms(1,2,3,4,5,6) by (simp add: check_player_def Let_def collision_phase_def u)
qed

lemma short_trail_capture_phase:
  "isOutside p \<Longrightarrow> length (trail p) \<le> 10 \<Longrightarrow>
   capture_phase p False pv cp = Some (p, False)"
  by (auto simp: capture_phase_def exit_detection_def entry_detection_def loop_closure_def
      split: option.splits)

text \<open>
  The tick of \<open>p_cut\<close> and \<open>p_long\<close>: the hash returns no segment of the trail of the other
  player, to either of them.
\<close>

lemma p_long_outside: "\<not> isPointInPolygon (currentPos_of p_long) (territory p_long)"
  by (simp add: isPointInPolygon_def p_long_def currentPos_of_def fpoint_def
      edge_intersect_def minus_jsnum_def)

lemma long_crossing:
  "segmentsIntersect (prevPos_of p_cut) (currentPos_of p_cut) (trail p_long ! 0) (trail p_long ! 1)"
  by (simp add: segmentsIntersect_def getSegmentIntersection_def
      p_cut_def p_long_def prevPos_of_def currentPos_of_def fpoint_def js_eq_def minus_jsnum_def Let_def)

lemma long_not_indexed_near:
  "\<not> indexed_near (trail p_long ! 0) (trail p_long ! (0 + 1)) (posx p_cut) (posy p_cut)"
  by (simp add: indexed_near_def segment_keys_def query_keys_def getKey_def cellSize_def
      p_long_def p_cut_def fpoint_def)

lemma cut_not_indexed_near:
  "i + 1 < length (trail p_cut) \<Longrightarrow>
   \<not> indexed_near (trail p_cut ! i) (trail p_cut ! (i + 1)) (posx p_long) (posy p_long)"
proof -
  assume "i + 1 < length (trail p_cut)"
  then have "i = 0 \<or> i = 1" by (auto simp: p_cut_def)
  then show ?thesis
    by (auto simp: indexed_near_def segment_keys_def query_keys_def getKey_def cellSize_def
      p_long_def p_cut_def fpoint_def)
qed

lemma long_tick:
  "checkCaptureAndCollisions clear [(''a'', p_cut), (''b'', p_long)]
   = Some [(''a'', p_cut), (''b'', p_long)]"
proof -
  let ?g = "[(''a'', p_cut), (''b'', p_long)]"
  let ?h = "build_hash ?g clear"
  have fa: "getPlayer ?g ''a'' = Some p_cut" "\<not> isDead p_cut" "isOutside p_cut"
    "\<not> winThreshold \<le> score p_cut" "length (trail p_cut) \<le> 10"
    using below_threshold by (simp_all add: getPlayer_def p_cut_def)
  have fb: "getPlayer ?g ''b'' = Some p_long" "\<not> isDead p_long" "isOutside p_long"
    "\<not> winThreshold \<le> score p_long" "length (trail p_long) \<le> 10"
    using below_threshold by (simp_all add: getPlayer_def p_long_def)
  have ca: "kill_victim (playerId it) ?g = ?g"
    if "it \<in> set (query ?h (posx p_cut) (posy p_cut))"
       "cuts_foreign ''a'' (prevPos_of p_cut) (currentPos_of p_cut) it" for it
  proof -
    have t: "itype it = Trail" "playerId it \<noteq> ''a''" using that(2) by (simp_all add: cuts_foreign_def)
    from nearby_trail_item [OF that(1) t(1)] obtain k q i where
      i: "(k, q) \<in> set ?g" "i + 1 < length (trail q)" "it = trail_item k q i"
         "indexed_near (trail q ! i) (trail q ! (i + 1)) (posx p_cut) (posy p_cut)" by blast
    have "k \<noteq> ''a''" using t(2) i(3) by (simp add: trail_item_def)
    then have q: "q = p_long" using i(1) by auto
    then have "i = 0" using i(2) by (simp add: p_long_def)
    then show ?thesis using i(4) q long_not_indexed_near by simp
  qed
  have na: "\<not> hits_self ''a'' p_cut False (prevPos_of p_cut) (currentPos_of p_cut) it" for it
    using fa(5) by (intro short_trail_no_self_hit) simp
  have r1: "check_player ?h ''a'' ?g = Some ?g"
    using fa(1,2,3) p_cut_outside short_trail_capture_phase [OF fa(3,5)] fa(4) na ca
    by (rule check_player_quiet)
  have cb: "kill_victim (playerId it) ?g = ?g"
    if "it \<in> set (query ?h (posx p_long) (posy p_long))"
       "cuts_foreign ''b'' (prevPos_of p_long) (currentPos_of p_long) it" for it
  proof -
    have t: "itype it = Trail" "playerId it \<noteq> ''b''" using that(2) by (simp_all add: cuts_foreign_def)
    from nearby_trail_item [OF that(1) t(1)] obtain k q i where
      i: "(k, q) \<in> set ?g" "i + 1 < length (trail q)" "it = trail_item k q i"
         "indexed_near (trail q ! i) (trail q ! (i + 1)) (posx p_long) (posy p_long)" by blast
    have "k \<noteq> ''b''" using t(2) i(3) by (simp add: trail_item_def)
    then have q: "q = p_cut" using i(1) by auto
    then show ?thesis using i(2,4) cut_not_indexed_near by simp
  qed
  have nb: "\<not> hits_self ''b'' p_long False (prevPos_of p_long) (currentPos_of p_long) it" for it
    using fb(5) by (intro short_trail_no_self_hit) simp
  have r2: "check_player ?h ''b'' ?g = Some ?g"
    using fb(1,2,3) p_long_outside short_trail_capture_phase [OF fb(3,5)] fb(4) nb cb
    by (rule check_player_quiet)
  show ?thesis by (simp add: checkCaptureAndCollisions_def r1 r2)
qed

text \<open>
  The tick of \<open>p_self\<close> and \<open>p_graze\<close>: the first cell that the query reads holds the segment
  of its own trail that \<open>p_self\<close> hits, and no segment of the trail of \<open>p_graze\<close>.
\<close>

lemma p_self_outside: "\<not> isPointInPolygon (currentPos_of p_self) (territory p_self)"
  by (simp add: isPointInPolygon_def p_self_def currentPos_of_def fpoint_def
      edge_intersect_def minus_jsnum_def)

lemma p_graze_outside: "\<not> isPointInPolygon (currentPos_of p_graze) (territory p_graze)"
  by (simp add: isPointInPolygon_def p_graze_def currentPos_of_def fpoint_def
      edge_intersect_def minus_jsnum_def)

lemma p_self_dist: "distToExit (currentPos_of p_self) (fpoint 98 (- 400)) = Fin (sqrt 41652)"
  by (simp add: distToExit_def p_self_def currentPos_of_def fpoint_def minus_jsnum_def Math_pow2_def)

lemma sqrt_41652: "100 \<le> sqrt 41652"
  by (rule real_le_rsqrt) simp

lemma p_self_capture_phase:
  "capture_phase p_self False (prevPos_of p_self) (currentPos_of p_self) = Some (p_self, False)"
proof -
  have e: "exitPoint p_self = Some (fpoint 98 (- 400))" "isOutside p_self"
    by (simp_all add: p_self_def)
  have "\<not> distToExit (currentPos_of p_self) (fpoint 98 (- 400)) < Fin 80"
    using sqrt_41652 by (simp add: p_self_dist)
  then show ?thesis
    using e by (simp add: capture_phase_def exit_detection_def entry_detection_def loop_closure_def)
qed

lemma p_self_not_near: "\<not> isNearExitPoint p_self (currentPos_of p_self)"
proof -
  have e: "exitPoint p_self = Some (fpoint 98 (- 400))" by (simp add: p_self_def)
  show ?thesis
    using sqrt_41652 by (simp add: isNearExitPoint_def e p_self_dist)
qed

lemma self_crossing:
  "segmentsIntersect (prevPos_of p_self) (currentPos_of p_self) (trail p_self ! 1) (trail p_self ! 2)"
  by (simp add: segmentsIntersect_def getSegmentIntersection_def self_trail_def
      p_self_def prevPos_of_def currentPos_of_def fpoint_def js_eq_def minus_jsnum_def Let_def)

lemma graze_crossing:
  "segmentsIntersect (prevPos_of p_self) (currentPos_of p_self) (trail p_graze ! 0) (trail p_graze ! 1)"
  by (simp add: segmentsIntersect_def getSegmentIntersection_def
      p_self_def p_graze_def prevPos_of_def currentPos_of_def fpoint_def js_eq_def minus_jsnum_def Let_def)

lemma graze_indexed_near:
  "indexed_near (trail p_graze ! 0) (trail p_graze ! (0 + 1)) (posx p_self) (posy p_self)"
  by (simp add: indexed_near_def segment_keys_def query_keys_def getKey_def cellSize_def
      p_graze_def p_self_def fpoint_def)

lemma self_hit:
  "hits_self ''a'' p_self False (prevPos_of p_self) (currentPos_of p_self) (trail_item ''a'' p_self 1)"
proof -
  have "length (trail p_self) = 24" by (simp add: p_self_def self_trail_def)
  then show ?thesis
    using p_self_not_near self_crossing
    by (simp add: hits_self_def trail_item_def index_gap_def numeral_2_eq_2)
qed

lemma p_self_query_keys:
  "query_keys (posx p_self) (posy p_self) =
     (Fin 0, Fin (- 3)) # tl (query_keys (posx p_self) (posy p_self))"
  by (simp add: query_keys_def p_self_def cellSize_def)

lemma self_item_first:
  "trail_item ''a'' p_self 1
     \<in> set (build_hash [(''a'', p_self), (''b'', p_graze)] clear (Fin 0, Fin (- 3)))"
proof -
  have "(Fin 0, Fin (- 3)) \<in> set (segment_keys (trail p_self ! 1) (trail p_self ! (1 + 1)))"
    by (simp add: segment_keys_def getKey_def cellSize_def p_self_def self_trail_def fpoint_def)
  moreover have "(''a'', p_self) \<in> set [(''a'', p_self), (''b'', p_graze)]" "\<not> isDead p_self"
    "1 + 1 < length (trail p_self)"
    by (simp_all add: p_self_def self_trail_def)
  ultimately show ?thesis by (intro build_hash_trail_self)
qed

lemma graze_not_first:
  assumes "x \<in> set (build_hash [(''a'', p_self), (''b'', p_graze)] clear (Fin 0, Fin (- 3)))"
  shows "\<not> cuts_foreign ''a'' pv cp x"
proof
  assume c: "cuts_foreign ''a'' pv cp x"
  then have t: "itype x = Trail" "playerId x \<noteq> ''a''" by (simp_all add: cuts_foreign_def)
  from build_hash_trail_mem [OF assms t(1)] obtain k q i where
    i: "(k, q) \<in> set [(''a'', p_self), (''b'', p_graze)]" "i + 1 < length (trail q)"
       "x = trail_item k q i"
       "(Fin 0, Fin (- 3)) \<in> set (segment_keys (trail q ! i) (trail q ! (i + 1)))"
    by (auto simp: clear_def)
  have "k \<noteq> ''a''" using t(2) i(3) by (simp add: trail_item_def)
  then have q: "q = p_graze" using i(1) by auto
  then have "i = 0" using i(2) by (simp add: p_graze_def)
  then show False
    using i(4) q by (simp add: segment_keys_def getKey_def cellSize_def p_graze_def fpoint_def)
qed

lemma graze_tick:
  "checkCaptureAndCollisions clear [(''a'', p_self), (''b'', p_graze)]
   = Some [(''a'', killPlayer p_self), (''b'', p_graze)]"
proof -
  let ?g = "[(''a'', p_self), (''b'', p_graze)]"
  let ?g1 = "[(''a'', killPlayer p_self), (''b'', p_graze)]"
  let ?h = "build_hash ?g clear"
  have fa: "getPlayer ?g ''a'' = Some p_self" "\<not> isDead p_self" "isOutside p_self"
    "\<not> winThreshold \<le> score p_self"
  proof -
    have "(20000::real) < 0.99 * (3 * 2499\<^sup>2)" by simp
    also have "\<dots> < 0.99 * (pi * 2499\<^sup>2)" using pi_lower by simp
    finally show "\<not> winThreshold \<le> score p_self" by (simp add: winThreshold_value p_self_def)
  qed (simp_all add: getPlayer_def p_self_def)
  obtain ks where ks: "query_keys (posx p_self) (posy p_self) = (Fin 0, Fin (- 3)) # ks"
    using p_self_query_keys by blast
  have q: "query ?h (posx p_self) (posy p_self) = ?h (Fin 0, Fin (- 3)) @ concat (map ?h ks)"
    by (simp add: query_query_keys ks)
  have l: "collision_loop ''a'' p_self False (prevPos_of p_self) (currentPos_of p_self)
             (query ?h (posx p_self) (posy p_self)) ?g = ?g1"
    unfolding q using self_item_first self_hit graze_not_first
    by (subst collision_loop_break) simp_all
  have u: "AList.update ''a'' p_self ?g = ?g" by simp
  have r1: "check_player ?h ''a'' ?g = Some ?g1"
    using fa p_self_outside
    by (simp add: check_player_def Let_def p_self_capture_phase collision_phase_def u l)
  have fb: "getPlayer ?g1 ''b'' = Some p_graze" "\<not> isDead p_graze" "isOutside p_graze"
    "\<not> winThreshold \<le> score p_graze" "length (trail p_graze) \<le> 10"
  proof -
    have "(10100::real) < 0.99 * (3 * 2499\<^sup>2)" by simp
    also have "\<dots> < 0.99 * (pi * 2499\<^sup>2)" using pi_lower by simp
    finally show "\<not> winThreshold \<le> score p_graze" by (simp add: winThreshold_value p_graze_def)
  qed (simp_all add: getPlayer_def p_graze_def)
  have nb: "\<not> hits_self ''b'' p_graze False (prevPos_of p_graze) (currentPos_of p_graze) it" for it
    using fb(5) by (intro short_trail_no_self_hit) simp
  have cb: "kill_victim (playerId it) ?g1 = ?g1"
    if "cuts_foreign ''b'' (prevPos_of p_graze) (currentPos_of p_graze) it" for it
  proof (cases "playerId it = ''a''")
    case True
    have "getPlayer ?g1 ''a'' = Some (killPlayer p_self)" by (simp add: getPlayer_def)
    then show ?thesis unfolding True by (rule kill_victim_same) simp
  next
    case False
    then have "getPlayer ?g1 (playerId it) = None"
      using that by (simp add: getPlayer_def cuts_foreign_def)
    then show ?thesis by (rule kill_victim_absent)
  qed
  have r2: "check_player ?h ''b'' ?g1 = Some ?g1"
    using fb(1,2,3) p_graze_outside short_trail_capture_phase [OF fb(3,5)] fb(4) nb cb
    by (rule check_player_quiet)
  show ?thesis by (simp add: checkCaptureAndCollisions_def r1 r2)
qed

text \<open>
  The tick of \<open>p_champ\<close> and \<open>p_edge\<close>: a player whose score is at the victory threshold, and
  which has not been declared the winner yet, leaves its territory across the trail of another
  player.  Its round takes the victory branch and skips the loop over the nearby items; nobody
  dies.
\<close>

lemma p_champ_outside: "\<not> isPointInPolygon (currentPos_of p_champ) (territory p_champ)"
  by (simp add: isPointInPolygon_def p_champ_def p_win_def currentPos_of_def arena32_def fpoint_def
      edge_intersect_def minus_jsnum_def)

lemma p_edge_outside: "\<not> isPointInPolygon (currentPos_of p_edge) (territory p_edge)"
  by (simp add: isPointInPolygon_def p_edge_def currentPos_of_def top_square_def fpoint_def
      edge_intersect_def minus_jsnum_def)

lemma champ_crossing:
  "segmentsIntersect (prevPos_of p_champ) (currentPos_of p_champ) (trail p_edge ! 4) (trail p_edge ! 5)"
  by (simp add: segmentsIntersect_def getSegmentIntersection_def
      p_champ_def p_win_def p_edge_def prevPos_of_def currentPos_of_def fpoint_def js_eq_def
      minus_jsnum_def Let_def)

lemma champ_indexed_near:
  "indexed_near (trail p_edge ! 4) (trail p_edge ! (4 + 1)) (posx p_champ) (posy p_champ)"
  by (simp add: indexed_near_def segment_keys_def query_keys_def getKey_def cellSize_def
      p_edge_def p_champ_def p_win_def fpoint_def)

lemma p_champ_capture_phase:
  "\<exists>pc. capture_phase p_champ False (prevPos_of p_champ) (currentPos_of p_champ) = Some (pc, False) \<and>
        isOutside pc \<and> winThreshold \<le> score pc \<and> victory pc = p_champ\<lparr>hasWon := True\<rparr>"
proof -
  let ?pc = "exit_detection p_champ False (prevPos_of p_champ) (currentPos_of p_champ)"
  have f: "\<not> isOutside p_champ" "invulnerableTimer p_champ \<le> Fin 0" "\<not> hasWon p_champ"
    "trail p_champ = []" "exitPoint p_champ = None" "exitEdgeIndex p_champ = - 1"
    by (simp_all add: p_champ_def p_win_def)
  have o: "isOutside ?pc" "length (trail ?pc) = 1" "score ?pc = score p_win"
    using f(1,2) by (auto simp: exit_detection_def p_champ_def split: option.splits)
  have v: "victory ?pc = p_champ\<lparr>hasWon := True\<rparr>"
    using f by (auto simp: exit_detection_def victory_def split: option.splits)
  have "capture_phase p_champ False (prevPos_of p_champ) (currentPos_of p_champ) = Some (?pc, False)"
    using o by (auto simp: capture_phase_def entry_detection_def loop_closure_def split: option.splits)
  then show ?thesis using o(1,3) v p_win_score by auto
qed

lemma champion_tick:
  "checkCaptureAndCollisions clear [(''a'', p_champ), (''b'', p_edge)]
   = Some [(''a'', p_champ\<lparr>hasWon := True\<rparr>), (''b'', p_edge)]"
proof -
  let ?g = "[(''a'', p_champ), (''b'', p_edge)]"
  let ?g1 = "[(''a'', p_champ\<lparr>hasWon := True\<rparr>), (''b'', p_edge)]"
  let ?h = "build_hash ?g clear"
  from p_champ_capture_phase obtain pc where
    pc: "capture_phase p_champ False (prevPos_of p_champ) (currentPos_of p_champ) = Some (pc, False)"
        "winThreshold \<le> score pc" "victory pc = p_champ\<lparr>hasWon := True\<rparr>" by blast
  have fa: "getPlayer ?g ''a'' = Some p_champ" "\<not> isDead p_champ"
    by (simp_all add: getPlayer_def p_champ_def p_win_def)
  have r1: "check_player ?h ''a'' ?g = Some ?g1"
    using fa p_champ_outside pc(2)
    by (simp add: check_player_def Let_def pc(1,3) collision_phase_def)
  have fb: "getPlayer ?g1 ''b'' = Some p_edge" "\<not> isDead p_edge" "isOutside p_edge"
    "length (trail p_edge) \<le> 10" "\<not> winThreshold \<le> score p_edge"
    using below_threshold by (simp_all add: getPlayer_def p_edge_def)
  have o: "\<And>k q. k \<noteq> ''b'' \<Longrightarrow> getPlayer ?g1 k = Some q \<Longrightarrow> \<not> isOutside q"
    by (auto simp: getPlayer_def p_champ_def p_win_def split: if_splits)
  have r2: "check_player ?h ''b'' ?g1 = Some ?g1"
    using fb(1,2,3) p_edge_outside fb(4,5) o by (rule check_player_idle)
  show ?thesis by (simp add: checkCaptureAndCollisions_def r1 r2)
qed

section \<open>Death needs a trail\<close>

text \<open>
  Claim C10: in the capture and collision phase of a tick, on a game whose players have
  distinct ids, a player that was alive before the phase is there after it, and if it is dead
  then its flag \<^verbatim>\<open>isOutside\<close> is set (the flag is left as it is by \<^verbatim>\<open>killPlayer\<close>) and it had
  a trail of at least two points when the hash was built.  A player without a trail does not die.
\<close>

theorem collision_death_outside:
  assumes "distinct (map fst g)" "checkCaptureAndCollisions clear g = Some g'"
    "getPlayer g k = Some q" "\<not> isDead q"
  shows "\<exists>q'. getPlayer g' k = Some q' \<and>
           (isDead q' \<longrightarrow> isOutside q' \<and> 2 \<le> length (trail q)) \<and>
           (trail q = [] \<longrightarrow> \<not> isDead q')"
proof -
  from assms(2) have "check_players (build_hash g clear) (map fst g) g = Some g'"
    by (simp add: checkCaptureAndCollisions_def)
  from check_players_step [OF this assms(3)] obtain q' where
    q': "getPlayer g' k = Some q'" "round_ok (build_hash g clear) k q q'" by blast
  have "isOutside q' \<and> 2 \<le> length (trail q)" if "isDead q'"
  proof -
    from q'(2) that assms(4) have o: "isOutside q'" "has_trail_item (build_hash g clear) k"
      by (simp_all add: round_ok_def)
    from build_hash_trail_item [OF assms(1) o(2)] assms(3) show ?thesis using o(1) by auto
  qed
  then show ?thesis using q'(1) by auto
qed

theorem collision_death_outside_witness:
  "distinct (map fst cut_game) \<and> getPlayer cut_game ''b'' = Some p_victim \<and> \<not> isDead p_victim \<and>
   (\<exists>g' q'. checkCaptureAndCollisions clear cut_game = Some g' \<and> getPlayer g' ''b'' = Some q' \<and>
      isDead q' \<and> isOutside q' \<and> 2 \<le> length (trail p_victim)) \<and>
   distinct (map fst [(''w'', p_win)]) \<and> getPlayer [(''w'', p_win)] ''w'' = Some p_win \<and>
   \<not> isDead p_win \<and> trail p_win = [] \<and>
   (\<exists>g' q'. checkCaptureAndCollisions clear [(''w'', p_win)] = Some g' \<and>
      getPlayer g' ''w'' = Some q' \<and> \<not> isDead q')"
proof -
  let ?g1 = "collision_loop ''a'' p_cut False (prevPos_of p_cut) (currentPos_of p_cut)
            (query (build_hash cut_game clear) (posx p_cut) (posy p_cut)) cut_game"
  have a: "distinct (map fst cut_game)" "getPlayer cut_game ''b'' = Some p_victim"
    "\<not> isDead p_victim"
    by (simp_all add: cut_game_def getPlayer_def p_victim_def)
  from collision_death_outside [OF a(1) cut_tick a(2,3)] cut_round_victim
  have "isOutside (killPlayer p_victim) \<and> 2 \<le> length (trail p_victim)" by auto
  then have b: "\<exists>g' q'. checkCaptureAndCollisions clear cut_game = Some g' \<and>
      getPlayer g' ''b'' = Some q' \<and> isDead q' \<and> isOutside q' \<and> 2 \<le> length (trail p_victim)"
    using cut_tick cut_round_victim by (intro exI [of _ ?g1] exI [of _ "killPlayer p_victim"]) simp
  have c: "distinct (map fst [(''w'', p_win)])" "getPlayer [(''w'', p_win)] ''w'' = Some p_win"
    "\<not> isDead p_win" "trail p_win = []"
    by (simp_all add: getPlayer_def p_win_def)
  have t: "checkCaptureAndCollisions clear [(''w'', p_win)] = Some [(''w'', victory p_win)]"
    by (simp add: checkCaptureAndCollisions_def p_win_round)
  from collision_death_outside [OF c(1) t c(2,3)] c(4)
  have d: "\<exists>g' q'. checkCaptureAndCollisions clear [(''w'', p_win)] = Some g' \<and>
      getPlayer g' ''w'' = Some q' \<and> \<not> isDead q'"
    using t by auto
  show ?thesis by (intro conjI a b c d)
qed

section \<open>Cutting the trail of another player\<close>

lemma indexed_near_cut:
  "indexed_near (trail p_victim ! 7) (trail p_victim ! (7 + 1)) (posx p_cut) (posy p_cut)"
  by (simp add: indexed_near_def segment_keys_def query_keys_def getKey_def cellSize_def
      p_victim_def victim_trail_def p_cut_def fpoint_def)

lemma victim_crossed:
  "segmentsIntersect (prevPos_of p_cut) (currentPos_of p_cut) (trail p_victim ! 7)
     (trail p_victim ! (7 + 1))"
  using cut_item_crossed
  by (simp add: cuts_foreign_def cut_item_def p_victim_def victim_trail_def)

lemma short_trail_no_own_hit: "length (trail p) \<le> 20 \<Longrightarrow> \<not> own_hit old p ins pv cp"
  by (auto simp: own_hit_def list_ex_iff)

lemma p_self_own_hit:
  "own_hit (trail p_self) p_self False (prevPos_of p_self) (currentPos_of p_self)"
proof -
  have "(1::nat) \<in> set [0..<length (trail p_self) - 1]" "length (trail p_self) = 24"
    by (simp_all add: p_self_def self_trail_def)
  then show ?thesis
    unfolding own_hit_def list_ex_iff using p_self_not_near self_crossing
    by (intro conjI bexI [of _ 1]) (simp_all add: numeral_2_eq_2)
qed

text \<open>
  Claim C4, as amended.  The hash is built from the game \<open>g0\<close>, whose keys are distinct; \<open>g\<close>
  is the game when the round of the player \<open>a\<close> begins, with \<open>a\<close> alive and as it was in \<open>g0\<close>
  (the rounds before it leave a live player as it was).
  The round of \<open>a\<close> reaches the loop over the nearby items: it commits no capture, the score
  is below the victory threshold and \<open>a\<close> is outside.  Let \<open>b\<close> be another player, alive in
  \<open>g0\<close>, and let the move of \<open>a\<close> intersect segment \<open>i\<close> of the trail that \<open>b\<close> had in \<open>g0\<close>.
  If one of the three cells in which the hash stores that segment is among the nine cells
  around the position of \<open>a\<close>, if the move of \<open>a\<close> hits no segment of its own trail, and if \<open>b\<close>
  is still outside when the round of \<open>a\<close> begins, then the round kills \<open>b\<close> and leaves \<open>a\<close>
  alive.  This holds for every such \<open>b\<close> in the same round.  Items of territories change
  nothing: the round is the same on the trail items alone.
\<close>

theorem foreign_trail_cut:
  assumes "distinct (map fst g0)" "getPlayer g0 a = Some pa" "getPlayer g0 b = Some pb0" "a \<noteq> b"
    "\<not> isDead pb0" "i + 1 < length (trail pb0)"
    "indexed_near (trail pb0 ! i) (trail pb0 ! (i + 1)) (posx pa) (posy pa)"
    "segmentsIntersect (prevPos_of pa) (currentPos_of pa) (trail pb0 ! i) (trail pb0 ! (i + 1))"
    "getPlayer g a = Some pa" "\<not> isDead pa"
    "capture_phase pa (isPointInPolygon (currentPos_of pa) (territory pa)) (prevPos_of pa)
       (currentPos_of pa) = Some (pc, False)"
    "\<not> winThreshold \<le> score pc" "isOutside pc"
    "\<not> own_hit (trail pa) pc (isPointInPolygon (currentPos_of pa) (territory pa)) (prevPos_of pa)
         (currentPos_of pa)"
    "getPlayer g b = Some pb" "isOutside pb"
  shows "\<exists>g'. check_player (build_hash g0 clear) a g = Some g' \<and>
           getPlayer g' b = Some (killPlayer pb) \<and> getPlayer g' a = Some pc \<and> \<not> isDead pc \<and>
           g' = collision_loop a pc (isPointInPolygon (currentPos_of pa) (territory pa))
                  (prevPos_of pa) (currentPos_of pa)
                  (filter (\<lambda>it. itype it = Trail)
                     (query (build_hash g0 clear) (posx pa) (posy pa)))
                  (AList.update a pc g)"
proof -
  let ?ins = "isPointInPolygon (currentPos_of pa) (territory pa)"
  let ?h = "build_hash g0 clear"
  let ?nearby = "query ?h (posx pa) (posy pa)"
  let ?g1 = "AList.update a pc g"
  let ?g' = "collision_loop a pc ?ins (prevPos_of pa) (currentPos_of pa) ?nearby ?g1"
  let ?it = "trail_item b pb0 i"
  note C = capture_phase_cases [OF assms(11)]
  have pos: "posx pc = posx pa" "posy pc = posy pa" and d: "\<not> isDead pc"
    using C assms(10) by simp_all
  have cp: "check_player ?h a g = Some ?g'"
    using assms(9,10,11,12,13) by (simp add: check_player_def Let_def collision_phase_def pos)
  have t: "?g' = collision_loop a pc ?ins (prevPos_of pa) (currentPos_of pa)
                  (filter (\<lambda>it. itype it = Trail) ?nearby) ?g1"
    by (rule collision_loop_territory)
  have nh: "\<not> hits_self a pc ?ins (prevPos_of pa) (currentPos_of pa) s" if "s \<in> set ?nearby" for s
    using hits_self_own_hit [OF assms(1,2) that] assms(14) by blast
  have tw: "takeWhile (\<lambda>s. \<not> hits_self a pc ?ins (prevPos_of pa) (currentPos_of pa) s) ?nearby
              = ?nearby"
    using nh by (simp add: takeWhile_eq_all_conv)
  have "(b, pb0) \<in> set g0" using assms(3) by (simp add: getPlayer_def map_of_SomeD)
  then have "?it \<in> set ?nearby"
    using assms(5,6,7) by (rule trail_item_nearby)
  then have m: "?it \<in> set (takeWhile
      (\<lambda>s. \<not> hits_self a pc ?ins (prevPos_of pa) (currentPos_of pa) s) ?nearby)"
    unfolding tw .
  have c: "cuts_foreign a (prevPos_of pa) (currentPos_of pa) ?it"
    using assms(4,8) by (simp add: cuts_foreign_def trail_item_def)
  have g1: "getPlayer ?g1 a = Some pc" by (simp add: getPlayer_update)
  have v: "getPlayer ?g1 (playerId ?it) = Some pb"
    using assms(4,15) by (simp add: getPlayer_update trail_item_def)
  from collision_loop_victim [OF g1 m c v assms(16)]
  have k: "getPlayer ?g' b = Some (killPlayer pb)" by (simp add: trail_item_def)
  have s: "getPlayer ?g' a = Some pc"
    using collision_loop_self [OF g1, of ?ins "prevPos_of pa" "currentPos_of pa" ?nearby] nh
    by auto
  show ?thesis
    by (rule exI [of _ ?g']) (intro conjI cp t k s d)
qed

theorem foreign_trail_cut_witness:
  "distinct (map fst cut_game) \<and> getPlayer cut_game ''a'' = Some p_cut \<and>
   getPlayer cut_game ''b'' = Some p_victim \<and> ''a'' \<noteq> ''b'' \<and>
   \<not> isDead p_victim \<and> 7 + 1 < length (trail p_victim) \<and>
   indexed_near (trail p_victim ! 7) (trail p_victim ! (7 + 1)) (posx p_cut) (posy p_cut) \<and>
   segmentsIntersect (prevPos_of p_cut) (currentPos_of p_cut) (trail p_victim ! 7)
     (trail p_victim ! (7 + 1)) \<and>
   \<not> isDead p_cut \<and>
   capture_phase p_cut (isPointInPolygon (currentPos_of p_cut) (territory p_cut)) (prevPos_of p_cut)
       (currentPos_of p_cut) = Some (p_cut, False) \<and>
   \<not> winThreshold \<le> score p_cut \<and> isOutside p_cut \<and>
   \<not> own_hit (trail p_cut) p_cut (isPointInPolygon (currentPos_of p_cut) (territory p_cut))
       (prevPos_of p_cut) (currentPos_of p_cut) \<and>
   isOutside p_victim \<and>
   (\<exists>g'. check_player (build_hash cut_game clear) ''a'' cut_game = Some g' \<and>
         getPlayer g' ''b'' = Some (killPlayer p_victim) \<and> getPlayer g' ''a'' = Some p_cut \<and>
         \<not> isDead p_cut)"
proof -
  let ?ins = "isPointInPolygon (currentPos_of p_cut) (territory p_cut)"
  have a: "distinct (map fst cut_game)" "getPlayer cut_game ''a'' = Some p_cut"
    "getPlayer cut_game ''b'' = Some p_victim" "''a'' \<noteq> ''b''"
    by (simp_all add: getPlayer_def cut_game_def)
  have b: "\<not> isDead p_victim" "7 + 1 < length (trail p_victim)"
    by (simp_all add: p_victim_def victim_trail_def)
  have c: "\<not> isDead p_cut" by (simp add: p_cut_def)
  have e: "capture_phase p_cut ?ins (prevPos_of p_cut) (currentPos_of p_cut) = Some (p_cut, False)"
    using p_cut_outside p_cut_capture_phase by simp
  have f: "\<not> winThreshold \<le> score p_cut" "isOutside p_cut"
    using below_threshold by (simp_all add: p_cut_def)
  have s: "length (trail p_cut) \<le> 20" by (simp add: p_cut_def)
  have n: "\<not> own_hit (trail p_cut) p_cut ?ins (prevPos_of p_cut) (currentPos_of p_cut)"
    using s by (rule short_trail_no_own_hit)
  have o: "isOutside p_victim" by (simp add: p_victim_def)
  from foreign_trail_cut [OF a b indexed_near_cut victim_crossed a(2) c e f n a(3) o]
  have r: "\<exists>g'. check_player (build_hash cut_game clear) ''a'' cut_game = Some g' \<and>
         getPlayer g' ''b'' = Some (killPlayer p_victim) \<and> getPlayer g' ''a'' = Some p_cut \<and>
         \<not> isDead p_cut"
    by blast
  show ?thesis
    by (intro conjI a b indexed_near_cut victim_crossed c e f n o r)
qed

text \<open>
  Three ticks against the claim as stated; in each of them the move of a live player that is
  outside crosses a segment of the trail of another live player that is outside, and the owner
  of the segment is not killed.  In the first, \<open>p_entry\<close> comes first in the map and re-enters
  its territory; then the move of \<open>p_late\<close> crosses a segment of the trail that \<open>p_entry\<close> had
  when the hash was built: the owner is no longer outside.  In the second, the move of \<open>p_cut\<close>
  crosses the one segment of the trail of \<open>p_long\<close>, whose endpoints and midpoint all lie more
  than one cell away from \<open>p_cut\<close>: the hash does not return the segment, and nobody dies.  In
  the third, the move of \<open>p_self\<close> crosses a segment of its own trail and the trail of
  \<open>p_graze\<close>; the hash returns both, its own segment first: \<open>p_self\<close> dies, the loop stops
  there, and \<open>p_graze\<close> lives.
\<close>

theorem foreign_trail_counterexample:
  "\<not> isDead p_entry \<and> isOutside p_entry \<and> \<not> isDead p_late \<and> isOutside p_late \<and>
   segmentsIntersect (prevPos_of p_late) (currentPos_of p_late) (trail p_entry ! 1) (trail p_entry ! 2) \<and>
   indexed_near (trail p_entry ! 1) (trail p_entry ! 2) (posx p_late) (posy p_late) \<and>
   \<not> own_hit (trail p_late) p_late False (prevPos_of p_late) (currentPos_of p_late) \<and>
   map_option (map (\<lambda>(k, q). (k, isDead q)))
     (checkCaptureAndCollisions clear [(''b'', p_entry), (''a'', p_late)])
     = Some [(''b'', False), (''a'', False)] \<and>
   \<not> isDead p_cut \<and> isOutside p_cut \<and> \<not> isDead p_long \<and> isOutside p_long \<and>
   segmentsIntersect (prevPos_of p_cut) (currentPos_of p_cut) (trail p_long ! 0) (trail p_long ! 1) \<and>
   \<not> indexed_near (trail p_long ! 0) (trail p_long ! 1) (posx p_cut) (posy p_cut) \<and>
   \<not> own_hit (trail p_cut) p_cut False (prevPos_of p_cut) (currentPos_of p_cut) \<and>
   map_option (map (\<lambda>(k, q). (k, isDead q)))
     (checkCaptureAndCollisions clear [(''a'', p_cut), (''b'', p_long)])
     = Some [(''a'', False), (''b'', False)] \<and>
   \<not> isDead p_self \<and> isOutside p_self \<and> \<not> isDead p_graze \<and> isOutside p_graze \<and>
   segmentsIntersect (prevPos_of p_self) (currentPos_of p_self) (trail p_graze ! 0) (trail p_graze ! 1) \<and>
   indexed_near (trail p_graze ! 0) (trail p_graze ! 1) (posx p_self) (posy p_self) \<and>
   own_hit (trail p_self) p_self False (prevPos_of p_self) (currentPos_of p_self) \<and>
   map_option (map (\<lambda>(k, q). (k, isDead q)))
     (checkCaptureAndCollisions clear [(''a'', p_self), (''b'', p_graze)])
     = Some [(''a'', True), (''b'', False)]"
proof -
  have a: "\<not> isDead p_entry" "isOutside p_entry" "\<not> isDead p_late" "isOutside p_late"
    "\<not> isDead p_cut" "isOutside p_cut" "\<not> isDead p_long" "isOutside p_long"
    "\<not> isDead p_self" "isOutside p_self" "\<not> isDead p_graze" "isOutside p_graze"
    by (simp_all add: p_entry_def p_late_def p_cut_def p_long_def p_self_def p_graze_def)
  have n1: "\<not> own_hit (trail p_late) p_late False (prevPos_of p_late) (currentPos_of p_late)"
    by (rule short_trail_no_own_hit) (simp add: p_late_def)
  have n2: "\<not> own_hit (trail p_cut) p_cut False (prevPos_of p_cut) (currentPos_of p_cut)"
    by (rule short_trail_no_own_hit) (simp add: p_cut_def)
  have i2: "\<not> indexed_near (trail p_long ! 0) (trail p_long ! 1) (posx p_cut) (posy p_cut)"
    using long_not_indexed_near by simp
  have i3: "indexed_near (trail p_graze ! 0) (trail p_graze ! 1) (posx p_self) (posy p_self)"
    using graze_indexed_near by simp
  have t1: "map_option (map (\<lambda>(k, q). (k, isDead q)))
     (checkCaptureAndCollisions clear [(''b'', p_entry), (''a'', p_late)])
     = Some [(''b'', False), (''a'', False)]"
    using a by (simp add: stale_tick clear_trail_state_def commit_def)
  have t2: "map_option (map (\<lambda>(k, q). (k, isDead q)))
     (checkCaptureAndCollisions clear [(''a'', p_cut), (''b'', p_long)])
     = Some [(''a'', False), (''b'', False)]"
    using a by (simp add: long_tick)
  have t3: "map_option (map (\<lambda>(k, q). (k, isDead q)))
     (checkCaptureAndCollisions clear [(''a'', p_self), (''b'', p_graze)])
     = Some [(''a'', True), (''b'', False)]"
    using a by (simp add: graze_tick)
  show ?thesis
    by (intro conjI a stale_crossing stale_indexed_near n1 t1 long_crossing i2 n2 t2
        graze_crossing i3 p_self_own_hit t3)
qed

section \<open>A winner stays alive\<close>

lemma won_inv_iff: "won_inv g \<longleftrightarrow> (\<forall>k q. getPlayer g k = Some q \<longrightarrow> won_ok q)"
proof
  assume a: "won_inv g"
  show "\<forall>k q. getPlayer g k = Some q \<longrightarrow> won_ok q"
  proof (intro allI impI)
    fix k q assume q: "getPlayer g k = Some q"
    then have "k \<in> set (map fst g)"
      by (auto simp: getPlayer_def dest!: map_of_SomeD intro: rev_image_eqI)
    with a q show "won_ok q" by (auto simp: won_inv_def list_all_iff)
  qed
next
  assume "\<forall>k q. getPlayer g k = Some q \<longrightarrow> won_ok q"
  then show "won_inv g" by (auto simp: won_inv_def list_all_iff split: option.splits)
qed

lemma same_status_refl [simp]: "same_status q q"
  by (simp add: same_status_def)

lemma same_status_won_ok: "same_status q q' \<Longrightarrow> won_ok q \<Longrightarrow> won_ok q'"
  by (simp add: same_status_def won_ok_def)

lemma updatePlayerMovement_status: "updatePlayerMovement p dt = Some p' \<Longrightarrow> same_status p p'"
  by (auto simp: updatePlayerMovement_def Let_def same_status_def split: option.splits)

lemma updatePlayerTrail_status: "same_status p (updatePlayerTrail p)"
  by (simp add: updatePlayerTrail_def Let_def same_status_def)

lemma same_status_trans: "same_status p q \<Longrightarrow> same_status q r \<Longrightarrow> same_status p r"
  by (simp add: same_status_def)

lemma update_player_status: "update_player dt p = Some p' \<Longrightarrow> same_status p p'"
proof (cases "isDead p")
  case True
  assume "update_player dt p = Some p'"
  with True show ?thesis by (auto simp: update_player_def same_status_def)
next
  case False
  assume a: "update_player dt p = Some p'"
  let ?p1 = "if invulnerableTimer p > Fin 0 then p\<lparr>invulnerableTimer := invulnerableTimer p - dt\<rparr> else p"
  from a False obtain p2 where p2: "updatePlayerMovement ?p1 dt = Some p2" "p' = updatePlayerTrail p2"
    by (auto simp: update_player_def Let_def)
  have "same_status p ?p1" by (simp add: same_status_def)
  from same_status_trans [OF this updatePlayerMovement_status [OF p2(1)]]
  show ?thesis unfolding p2(2) using updatePlayerTrail_status same_status_trans by blast
qed

lemma GameState_update_get:
  "GameState_update dt g = Some g' \<Longrightarrow>
   getPlayer g' k = (case getPlayer g k of None \<Rightarrow> None | Some p \<Rightarrow> update_player dt p)"
proof (induction g arbitrary: g')
  case Nil
  then show ?case by (simp add: getPlayer_def)
next
  case (Cons ip g)
  obtain i p where ip: "ip = (i, p)" by (cases ip)
  from Cons.prems obtain p' r' where
    r: "update_player dt p = Some p'" "GameState_update dt g = Some r'" "g' = (i, p') # r'"
    by (auto simp: ip split: option.splits)
  from Cons.IH [OF r(2)] show ?case
    by (simp add: r(1,3) ip getPlayer_def)
qed

lemma getPlayer_delete: "getPlayer (removePlayer i g) k = (if k = i then None else getPlayer g k)"
  by (simp add: getPlayer_def removePlayer_def delete_conv')

lemma setPlayerInput_back:
  "getPlayer (setPlayerInput i ta g) k = Some q' \<Longrightarrow> \<exists>q. getPlayer g k = Some q \<and> same_status q q'"
  by (auto simp: setPlayerInput_def getPlayer_update getPlayer_def [symmetric] same_status_def
      split: option.splits if_splits)

lemma setPlayerInput_fwd:
  "getPlayer g k = Some q \<Longrightarrow> \<exists>q'. getPlayer (setPlayerInput i ta g) k = Some q' \<and> same_status q q'"
  by (auto simp: setPlayerInput_def getPlayer_update getPlayer_def [symmetric] same_status_def
      split: option.splits if_splits)

lemma GameState_update_fwd:
  "GameState_update dt g = Some g' \<Longrightarrow> getPlayer g k = Some q \<Longrightarrow>
   \<exists>q'. update_player dt q = Some q' \<and> getPlayer g' k = Some q'"
proof (induction g arbitrary: g')
  case Nil
  then show ?case by (simp add: getPlayer_def)
next
  case (Cons ip g)
  obtain i p where ip: "ip = (i, p)" by (cases ip)
  from Cons.prems(1) obtain p' r' where
    r: "update_player dt p = Some p'" "GameState_update dt g = Some r'" "g' = (i, p') # r'"
    by (auto simp: ip split: option.splits)
  show ?case
  proof (cases "k = i")
    case True
    then show ?thesis using Cons.prems(2) r by (simp add: ip getPlayer_def)
  next
    case False
    then have "getPlayer g k = Some q" using Cons.prems(2) by (simp add: ip getPlayer_def)
    from Cons.IH [OF r(2) this] show ?thesis using False by (simp add: r(3) getPlayer_def)
  qed
qed

lemma won_inv_step:
  assumes "won_inv g"
    "\<And>k q'. getPlayer g' k = Some q' \<Longrightarrow> \<exists>q. (getPlayer g k = Some q \<and> same_status q q') \<or> won_ok q'"
  shows "won_inv g'"
  unfolding won_inv_iff
proof (intro allI impI)
  fix k q' assume "getPlayer g' k = Some q'"
  from assms(2) [OF this] assms(1) show "won_ok q'"
    by (auto simp: won_inv_iff dest: same_status_won_ok)
qed

lemma bot_step_get:
  "getPlayer (case getPlayer g botId of
          None \<Rightarrow> g
        | Some p \<Rightarrow>
            if isDead p \<and> deathTimer p > Fin 1 then removePlayer botId g
            else if \<not> isDead p
            then (case decision of None \<Rightarrow> g | Some ta \<Rightarrow> setPlayerInput botId ta g)
            else g) k = Some q' \<Longrightarrow>
   \<exists>q. getPlayer g k = Some q \<and> same_status q q'"
  by (auto simp: getPlayer_delete split: option.splits if_splits dest: setPlayerInput_back)

lemma bot_step_alive:
  "getPlayer g k = Some q \<Longrightarrow> \<not> isDead q \<Longrightarrow>
   \<exists>q'. getPlayer (case getPlayer g botId of
          None \<Rightarrow> g
        | Some p \<Rightarrow>
            if isDead p \<and> deathTimer p > Fin 1 then removePlayer botId g
            else if \<not> isDead p
            then (case decision of None \<Rightarrow> g | Some ta \<Rightarrow> setPlayerInput botId ta g)
            else g) k = Some q' \<and> same_status q q'"
  by (auto simp: getPlayer_delete split: option.splits if_splits intro: setPlayerInput_fwd)

lemma bot_phase_get:
  "getPlayer (bot_phase bots g) k = Some q' \<Longrightarrow> \<exists>q. getPlayer g k = Some q \<and> same_status q q'"
proof (induction bots arbitrary: g)
  case Nil
  then show ?case by simp
next
  case (Cons b bots)
  obtain botId decision where b: "b = (botId, decision)" by (cases b)
  let ?g1 = "case getPlayer g botId of
          None \<Rightarrow> g
        | Some p \<Rightarrow>
            if isDead p \<and> deathTimer p > Fin 1 then removePlayer botId g
            else if \<not> isDead p
            then (case decision of None \<Rightarrow> g | Some ta \<Rightarrow> setPlayerInput botId ta g)
            else g"
  from Cons.prems have "getPlayer (bot_phase bots ?g1) k = Some q'" by (simp add: b)
  from Cons.IH [OF this] obtain q1 where q1: "getPlayer ?g1 k = Some q1" "same_status q1 q'" by blast
  from bot_step_get [OF q1(1)] obtain q where "getPlayer g k = Some q" "same_status q q1" by blast
  then show ?case using q1(2) same_status_trans by blast
qed

lemma bot_phase_alive:
  "getPlayer g k = Some q \<Longrightarrow> \<not> isDead q \<Longrightarrow>
   \<exists>q'. getPlayer (bot_phase bots g) k = Some q' \<and> same_status q q'"
proof (induction bots arbitrary: g q)
  case Nil
  then show ?case by simp
next
  case (Cons b bots)
  obtain botId decision where b: "b = (botId, decision)" by (cases b)
  let ?g1 = "case getPlayer g botId of
          None \<Rightarrow> g
        | Some p \<Rightarrow>
            if isDead p \<and> deathTimer p > Fin 1 then removePlayer botId g
            else if \<not> isDead p
            then (case decision of None \<Rightarrow> g | Some ta \<Rightarrow> setPlayerInput botId ta g)
            else g"
  from bot_step_alive [OF Cons.prems, of botId decision] obtain q1 where
    q1: "getPlayer ?g1 k = Some q1" "same_status q q1" by blast
  have "\<not> isDead q1" using q1(2) Cons.prems(2) by (simp add: same_status_def)
  from Cons.IH [OF q1(1) this] obtain q' where
    "getPlayer (bot_phase bots ?g1) k = Some q'" "same_status q1 q'" by blast
  then show ?case using q1(2) same_status_trans by (auto simp: b)
qed

lemma winner_capture_phase:
  assumes "hasWon p" "won_ok p"
    "capture_phase p ins pv cp = Some (pc, jc)"
  shows "\<not> jc \<and> score pc = score p \<and> \<not> isDead pc \<and> hasWon pc"
proof -
  have o: "\<not> isOutside p" "\<not> isDead p" using assms(1,2) by (simp_all add: won_ok_def)
  let ?p1 = "exit_detection p ins pv cp"
  have e: "entry_detection ?p1 ins pv cp = Some (?p1, False)"
    using o by (auto simp: entry_detection_def exit_detection_def split: option.splits)
  have t: "length (trail ?p1) \<le> 10 \<or> \<not> isOutside ?p1"
    using o by (auto simp: exit_detection_def split: option.splits)
  have "loop_closure ?p1 ins cp False = Some (?p1, False)"
    using t by (auto simp: loop_closure_def split: option.splits)
  then have "pc = ?p1" "\<not> jc" using assms(3) by (simp_all add: capture_phase_def e)
  then show ?thesis using assms(1) o by simp
qed

lemma won_ok_victory: "\<not> isDead pc \<Longrightarrow> winThreshold \<le> score pc \<Longrightarrow> won_ok (victory pc) \<and> hasWon (victory pc)"
  by (simp add: won_ok_def victory_def Let_def)

lemma check_player_won:
  assumes "check_player h ident g = Some g'" "getPlayer g k = Some q" "won_ok q"
  shows "\<exists>q'. getPlayer g' k = Some q' \<and> won_ok q' \<and> (hasWon q \<longrightarrow> hasWon q')"
proof (cases "k = ident")
  case True
  show ?thesis
  proof (cases "isDead q")
    case True
    then have "g' = g" using assms \<open>k = ident\<close> by (simp add: check_player_def)
    then show ?thesis using assms(2,3) by simp
  next
    case False
    let ?ins = "isPointInPolygon (currentPos_of q) (territory q)"
    from assms False \<open>k = ident\<close> obtain pc jc where
      cp: "capture_phase q ?ins (prevPos_of q) (currentPos_of q) = Some (pc, jc)" and
      g': "g' = collision_phase h ident pc jc ?ins (prevPos_of q) (currentPos_of q) g"
      by (auto simp: check_player_def Let_def split: option.splits)
    note C = capture_phase_cases [OF cp]
    have d: "\<not> isDead pc" "hasWon pc = hasWon q" using C False by simp_all
    show ?thesis
    proof (cases "hasWon q")
      case True
      from winner_capture_phase [OF True assms(3) cp]
      have w: "\<not> jc" "score pc = score q" by simp_all
      have s: "winThreshold \<le> score pc" using assms(3) True w(2) by (simp add: won_ok_def)
      have "g' = AList.update ident (victory pc) g"
        unfolding g' using w(1) s by (simp add: collision_phase_def)
      then have "getPlayer g' k = Some (victory pc)"
        using \<open>k = ident\<close> by (simp add: getPlayer_update)
      then show ?thesis using won_ok_victory [OF d(1) s] by simp
    next
      case nw: False
      from collision_phase_get_self obtain p' where
        p': "getPlayer (collision_phase h ident pc jc ?ins (prevPos_of q) (currentPos_of q) g) ident = Some p'"
        by blast
      from collision_phase_self [OF p']
      have "won_ok p'"
        using d nw won_ok_victory [of pc] by (auto simp: won_ok_def)
      then show ?thesis using p' g' \<open>k = ident\<close> nw by simp
    qed
  qed
next
  case False
  show ?thesis
  proof (cases "g' = g")
    case True
    then show ?thesis using assms(2,3) by simp
  next
    case ne: False
    from assms(1) ne obtain p pc jc ins pv cp where
      g': "g' = collision_phase h ident pc jc ins pv cp g"
      by (auto simp: check_player_def Let_def split: option.splits if_splits)
    from collision_phase_other [OF False assms(2), of h pc jc ins pv cp]
    obtain q' where q': "getPlayer g' k = Some q'"
      "q' = q \<or> q' = killPlayer q \<and> isOutside q"
      unfolding g' by blast
    have "won_ok q' \<and> (hasWon q \<longrightarrow> hasWon q')"
      using q'(2) assms(3) by (auto simp: won_ok_def)
    then show ?thesis using q'(1) by blast
  qed
qed

lemma check_player_keys: "check_player h ident g = Some g' \<Longrightarrow> map fst g' = map fst g"
proof -
  assume a: "check_player h ident g = Some g'"
  show ?thesis
  proof (cases "g' = g")
    case True
    then show ?thesis by simp
  next
    case False
    from a False obtain p pc jc ins pv cp where
      p: "getPlayer g ident = Some p" and
      g': "g' = collision_phase h ident pc jc ins pv cp g"
      by (auto simp: check_player_def Let_def split: option.splits if_splits)
    have n: "getPlayer g ident \<noteq> None" using p by simp
    have n1: "getPlayer (AList.update ident pc g) ident \<noteq> None" by (simp add: getPlayer_update)
    show ?thesis
      unfolding g' using n keys_collision_loop [OF n1]
      by (simp add: collision_phase_def keys_update)
  qed
qed

lemma check_players_won:
  "check_players h idents g = Some g' \<Longrightarrow> getPlayer g k = Some q \<Longrightarrow> won_ok q \<Longrightarrow>
   \<exists>q'. getPlayer g' k = Some q' \<and> won_ok q' \<and> (hasWon q \<longrightarrow> hasWon q')"
proof (induction idents arbitrary: g q)
  case Nil
  then show ?case by simp
next
  case (Cons ident idents)
  from Cons.prems(1) obtain g1 where
    g1: "check_player h ident g = Some g1" "check_players h idents g1 = Some g'"
    by (auto split: option.splits)
  from check_player_won [OF g1(1) Cons.prems(2,3)] obtain q1 where
    q1: "getPlayer g1 k = Some q1" "won_ok q1" "hasWon q \<longrightarrow> hasWon q1" by blast
  from Cons.IH [OF g1(2) q1(1,2)] obtain q' where
    "getPlayer g' k = Some q'" "won_ok q'" "hasWon q1 \<longrightarrow> hasWon q'" by blast
  then show ?case using q1(3) by blast
qed

lemma check_players_keys: "check_players h idents g = Some g' \<Longrightarrow> map fst g' = map fst g"
proof (induction idents arbitrary: g)
  case Nil
  then show ?case by simp
next
  case (Cons ident idents)
  from Cons.prems(1) obtain g1 where
    g1: "check_player h ident g = Some g1" "check_players h idents g1 = Some g'"
    by (auto split: option.splits)
  show ?case using Cons.IH [OF g1(2)] check_player_keys [OF g1(1)] by simp
qed

lemma getPlayer_keys: "map fst g' = map fst g \<Longrightarrow> getPlayer g' k = Some q' \<Longrightarrow> \<exists>q. getPlayer g k = Some q"
proof -
  assume a: "map fst g' = map fst g" "getPlayer g' k = Some q'"
  then have "k \<in> fst ` set g'" by (auto simp: getPlayer_def dest!: map_of_SomeD intro: rev_image_eqI)
  then have "k \<in> fst ` set g" using a(1) by (metis set_map)
  then show ?thesis by (cases "map_of g k") (auto simp: getPlayer_def map_of_eq_None_iff)
qed

lemma checkCaptureAndCollisions_won_inv:
  assumes "checkCaptureAndCollisions h g = Some g'" "won_inv g"
  shows "won_inv g'"
  unfolding won_inv_iff
proof (intro allI impI)
  fix k q' assume q': "getPlayer g' k = Some q'"
  have c: "check_players (build_hash g h) (map fst g) g = Some g'"
    using assms(1) by (simp add: checkCaptureAndCollisions_def)
  from getPlayer_keys [OF check_players_keys [OF c] q'] obtain q where q: "getPlayer g k = Some q"
    by blast
  then have "won_ok q" using assms(2) by (simp add: won_inv_iff)
  from check_players_won [OF c q this] q' show "won_ok q'" by auto
qed

lemma GameRoom_update_won_inv:
  assumes "GameRoom_update dt bots g = Some g'" "won_inv g"
  shows "won_inv g'"
proof -
  from assms(1) obtain g1 where
    g1: "GameState_update dt g = Some g1"
        "checkCaptureAndCollisions clear (bot_phase bots g1) = Some g'"
    by (auto simp: GameRoom_update_def split: option.splits)
  have i1: "won_inv g1"
  proof (rule won_inv_step [OF assms(2)])
    fix k q' assume "getPlayer g1 k = Some q'"
    then show "\<exists>q. (getPlayer g k = Some q \<and> same_status q q') \<or> won_ok q'"
      using GameState_update_get [OF g1(1), of k] update_player_status
      by (auto split: option.splits)
  qed
  have i2: "won_inv (bot_phase bots g1)"
  proof (rule won_inv_step [OF i1])
    fix k q' assume "getPlayer (bot_phase bots g1) k = Some q'"
    from bot_phase_get [OF this]
    show "\<exists>q. (getPlayer g1 k = Some q \<and> same_status q q') \<or> won_ok q'" by blast
  qed
  show ?thesis using g1(2) i2 by (rule checkCaptureAndCollisions_won_inv)
qed

lemma GameRoom_update_winner:
  assumes "GameRoom_update dt bots g = Some g'" "won_inv g" "getPlayer g k = Some q" "hasWon q"
  shows "\<exists>q'. getPlayer g' k = Some q' \<and> hasWon q' \<and> \<not> isDead q' \<and> \<not> isOutside q' \<and>
              winThreshold \<le> score q'"
proof -
  from assms(1) obtain g1 where
    g1: "GameState_update dt g = Some g1"
        "checkCaptureAndCollisions clear (bot_phase bots g1) = Some g'"
    by (auto simp: GameRoom_update_def split: option.splits)
  have w: "won_ok q" using assms(2,3) by (simp add: won_inv_iff)
  then have a: "\<not> isDead q" using assms(4) by (simp add: won_ok_def)
  from GameState_update_fwd [OF g1(1) assms(3)]
  obtain q1 where q1: "getPlayer g1 k = Some q1" "update_player dt q = Some q1"
    by blast
  note s1 = update_player_status [OF q1(2)]
  have a1: "\<not> isDead q1" using s1 a by (simp add: same_status_def)
  from bot_phase_alive [OF q1(1) a1, of bots] obtain q2 where
    q2: "getPlayer (bot_phase bots g1) k = Some q2" "same_status q1 q2" by blast
  have s: "same_status q q2" using s1 q2(2) by (rule same_status_trans)
  have w2: "won_ok q2" "hasWon q2" using s w assms(4) by (simp_all add: same_status_def won_ok_def)
  have c: "check_players (build_hash (bot_phase bots g1) clear) (map fst (bot_phase bots g1))
             (bot_phase bots g1) = Some g'"
    using g1(2) by (simp add: checkCaptureAndCollisions_def)
  from check_players_won [OF c q2(1) w2(1)] w2(2) obtain q' where
    "getPlayer g' k = Some q'" "won_ok q'" "hasWon q'" by blast
  then show ?thesis by (auto simp: won_ok_def)
qed

lemma reachable_won_inv: "reachable g \<Longrightarrow> won_inv g"
proof (induction rule: reachable.induct)
  case init
  then show ?case by (simp add: won_inv_def)
next
  case (join g ident cx cy col)
  show ?case
  proof (rule won_inv_step [OF join.IH])
    fix k q' assume "getPlayer (createPlayer ident cx cy col g) k = Some q'"
    then show "\<exists>q. (getPlayer g k = Some q \<and> same_status q q') \<or> won_ok q'"
      by (auto simp: createPlayer_def getPlayer_update new_player_def Let_def won_ok_def
          split: if_splits)
  qed
next
  case (leave g ident)
  show ?case
  proof (rule won_inv_step [OF leave.IH])
    fix k q' assume "getPlayer (removePlayer ident g) k = Some q'"
    then show "\<exists>q. (getPlayer g k = Some q \<and> same_status q q') \<or> won_ok q'"
      by (auto simp: getPlayer_delete split: if_splits)
  qed
next
  case (input g ident ta)
  show ?case
  proof (rule won_inv_step [OF input.IH])
    fix k q' assume "getPlayer (setPlayerInput ident ta g) k = Some q'"
    then show "\<exists>q. (getPlayer g k = Some q \<and> same_status q q') \<or> won_ok q'"
      by (auto dest: setPlayerInput_back)
  qed
next
  case (tick g dt bots g')
  from tick.hyps(2) tick.IH show ?case by (rule GameRoom_update_won_inv)
qed

section \<open>No tick kills a winner\<close>

lemma victory_p_win: "victory p_win = p_win\<lparr>hasWon := True\<rparr>"
  by (simp add: victory_def Let_def p_win_def)

lemma p_won_tick:
  "GameRoom_update (Fin (1 / 50)) [] [(''w'', victory p_win)]
   = Some [(''w'', (victory p_win)\<lparr>posx := Fin 2510, prevX := Some (Fin 2500)\<rparr>)]"
proof -
  let ?pw = "p_win\<lparr>hasWon := True\<rparr>"
  let ?pm = "p_win\<lparr>hasWon := True, posx := Fin 2510, prevX := Some (Fin 2500)\<rparr>"
  have a0: "atan2 0 1 = 0" by (simp add: atan2_def)
  have np: "\<not> pi \<le> 0" using pi_gt_zero by linarith
  have up: "normalize_up (Fin 0) = Some (Fin 0)"
    by (subst normalize_up.simps) (simp add: Math_PI_def np)
  have down: "normalize_down (Fin 0) = Some (Fin 0)"
    by (subst normalize_down.simps) (simp add: Math_PI_def np)
  have sq: "sqrt 100 = 10" using real_sqrt_abs [of 10] by simp
  have m: "updatePlayerMovement ?pw (Fin (1 / 50)) = Some ?pm"
    by (simp add: updatePlayerMovement_def p_win_def Let_def a0 minus_jsnum_def normalize_diff_def
        up down PLAYER_TURN_SPEED_def WORLD_WIDTH_def WORLD_HEIGHT_def sq)
  have f: "\<not> isDead ?pw" "\<not> Fin 0 < invulnerableTimer ?pw" "\<not> isOutside ?pm" "\<not> isDead ?pm"
    by (simp_all add: p_win_def)
  have u: "update_player (Fin (1 / 50)) ?pw = Some ?pm"
    using f by (simp add: update_player_def m Let_def updatePlayerTrail_def)
  have gs: "GameState_update (Fin (1 / 50)) [(''w'', ?pw)] = Some [(''w'', ?pm)]"
    by (simp add: u)
  have ins: "isPointInPolygon (currentPos_of ?pm) (territory ?pm)"
    by (simp add: isPointInPolygon_def p_win_def currentPos_of_def arena32_def fpoint_def
        edge_intersect_def minus_jsnum_def)
  have cp: "capture_phase ?pm True (prevPos_of ?pm) (currentPos_of ?pm) = Some (?pm, False)"
    by (simp add: capture_phase_def exit_detection_def entry_detection_def loop_closure_def p_win_def)
  have sc: "winThreshold \<le> score ?pm" using p_win_score by simp
  have vv: "victory ?pm = ?pm" by (simp add: victory_def Let_def p_win_def)
  have g: "getPlayer [(''w'', ?pm)] ''w'' = Some ?pm" by (simp add: getPlayer_def)
  have "check_player h ''w'' [(''w'', ?pm)] = Some [(''w'', ?pm)]" for h
    using g f(4) ins sc
    by (simp add: check_player_def Let_def cp collision_phase_def vv)
  then show ?thesis
    unfolding victory_p_win
    by (simp add: GameRoom_update_def u checkCaptureAndCollisions_def)
qed

text \<open>
  Claim C6: in every state that the room can reach (players join, leave, steer, and the room
  ticks), every player with \<^verbatim>\<open>hasWon\<close> is alive, not outside, and has a score at or above the
  victory threshold (the invariant \<open>won_inv\<close>).  In a state with this invariant a winner is not
  dead, and whatever the time step and the bots, a tick that returns keeps the invariant and
  leaves the winner registered, with \<^verbatim>\<open>hasWon\<close> set and not dead: its own round ends in the
  victory branch before the collisions, and the round of another player kills only a victim
  that is outside.
\<close>

theorem winner_never_dies:
  "(reachable g0 \<longrightarrow> won_inv g0) \<and>
   (won_inv g \<and> getPlayer g k = Some q \<and> hasWon q \<longrightarrow>
      \<not> isDead q \<and>
      (\<forall>dt bots g'. GameRoom_update dt bots g = Some g' \<longrightarrow>
         won_inv g' \<and> (\<exists>q'. getPlayer g' k = Some q' \<and> hasWon q' \<and> \<not> isDead q')))"
proof (intro conjI impI allI)
  assume "reachable g0"
  then show "won_inv g0" by (rule reachable_won_inv)
next
  assume a: "won_inv g \<and> getPlayer g k = Some q \<and> hasWon q"
  then have "won_ok q" by (auto simp: won_inv_iff)
  then show "\<not> isDead q" using a by (simp add: won_ok_def)
next
  fix dt bots g'
  assume a: "won_inv g \<and> getPlayer g k = Some q \<and> hasWon q"
    and u: "GameRoom_update dt bots g = Some g'"
  from u a show "won_inv g'" by (auto intro: GameRoom_update_won_inv)
next
  fix dt bots g'
  assume a: "won_inv g \<and> getPlayer g k = Some q \<and> hasWon q"
    and u: "GameRoom_update dt bots g = Some g'"
  from a have b: "won_inv g" "getPlayer g k = Some q" "hasWon q" by simp_all
  from GameRoom_update_winner [OF u b]
  show "\<exists>q'. getPlayer g' k = Some q' \<and> hasWon q' \<and> \<not> isDead q'" by blast
qed

theorem winner_never_dies_witness:
  "reachable (createPlayer ''w'' (Fin 2500) (Fin 2500) ''#45B7D1'' []) \<and>
   won_inv (createPlayer ''w'' (Fin 2500) (Fin 2500) ''#45B7D1'' []) \<and>
   won_inv [(''w'', victory p_win)] \<and>
   getPlayer [(''w'', victory p_win)] ''w'' = Some (victory p_win) \<and> hasWon (victory p_win) \<and>
   \<not> isDead (victory p_win) \<and>
   (\<exists>g' q'. GameRoom_update (Fin (1 / 50)) [] [(''w'', victory p_win)] = Some g' \<and>
      won_inv g' \<and> getPlayer g' ''w'' = Some q' \<and> hasWon q' \<and> \<not> isDead q')"
proof -
  have r: "reachable (createPlayer ''w'' (Fin 2500) (Fin 2500) ''#45B7D1'' [])"
    by (intro reachable.join reachable.init)
  have w: "won_ok (victory p_win)" "hasWon (victory p_win)"
    using won_ok_victory [OF _ p_win_score] by (simp_all add: p_win_def)
  have i: "won_inv [(''w'', victory p_win)]"
    using w(1) by (simp add: won_inv_def getPlayer_def)
  have g: "getPlayer [(''w'', victory p_win)] ''w'' = Some (victory p_win)"
    by (simp add: getPlayer_def)
  note T = winner_never_dies [of "createPlayer ''w'' (Fin 2500) (Fin 2500) ''#45B7D1'' []"
      "[(''w'', victory p_win)]" "''w''" "victory p_win"]
  from T r have a: "won_inv (createPlayer ''w'' (Fin 2500) (Fin 2500) ''#45B7D1'' [])" by blast
  from T i g w(2) have b: "\<not> isDead (victory p_win)" by blast
  from T i g w(2) p_won_tick
  have c: "\<exists>g' q'. GameRoom_update (Fin (1 / 50)) [] [(''w'', victory p_win)] = Some g' \<and>
      won_inv g' \<and> getPlayer g' ''w'' = Some q' \<and> hasWon q' \<and> \<not> isDead q'"
    by blast
  show ?thesis by (intro conjI r a i g w(2) b c)
qed

end
